theory Spec2Isabelle
  imports Main "HOL-Library.Word"
begin

unbundle bit_operations_syntax

section \<open>Data model\<close>

type_synonym byte = "8 word"

text \<open>
  Go panics and returned \<open>error\<close> values are both outcomes of a call.  A returned error is
  \<open>Inl (Err m)\<close>, a panic is \<open>Inl (Panic p)\<close>, a normal return is \<open>Inr v\<close>.
\<close>

datatype errmsg = InvalidPadding | InvalidMode | InvalidEncryptedTextCBC | InvalidEncryptedTextCTR

datatype panicmsg =
    IndexOutOfRange
  | SliceBoundsOutOfRange
  | SliceToArrayTooShort
  | UnsupportedKeySize
  | IVMustHave16Bytes
  | PanicOfError errmsg
  | CouldNotFindPaddingByte

datatype fault = Err errmsg | Panic panicmsg

text \<open>The fixed-size arrays \<open>[4]byte\<close>, \<open>[16]byte\<close> and \<open>[4][4]byte\<close> (a list of four rows).\<close>

datatype word4 = W4 byte byte byte byte

datatype block16 = B16 byte byte byte byte byte byte byte byte byte byte byte byte byte byte byte byte

datatype matrix = M4 word4 word4 word4 word4

text \<open>\<open>c[:]\<close> turns an array into a slice of its 16 bytes.\<close>

fun toSlice :: "block16 \<Rightarrow> byte list" where
  "toSlice (B16 b0 b1 b2 b3 b4 b5 b6 b7 b8 b9 b10 b11 b12 b13 b14 b15) =
     [b0, b1, b2, b3, b4, b5, b6, b7, b8, b9, b10, b11, b12, b13, b14, b15]"

text \<open>
  The conversion \<open>[16]byte(s)\<close> of a slice panics when the slice is shorter than 16 bytes and
  otherwise copies its first 16 bytes.
\<close>

definition toArray16 :: "byte list \<Rightarrow> fault + block16" where
  "toArray16 s =
     (if length s < 16 then Inl (Panic SliceToArrayTooShort)
      else Inr (B16 (s ! 0) (s ! 1) (s ! 2) (s ! 3) (s ! 4) (s ! 5) (s ! 6) (s ! 7)
                    (s ! 8) (s ! 9) (s ! 10) (s ! 11) (s ! 12) (s ! 13) (s ! 14) (s ! 15)))"

text \<open>Indexing a slice with a run-time index panics out of range.\<close>

definition index :: "'a list \<Rightarrow> int \<Rightarrow> fault + 'a" where
  "index xs i = (if 0 \<le> i \<and> i < int (length xs) then Inr (xs ! nat i) else Inl (Panic IndexOutOfRange))"

definition store :: "'a list \<Rightarrow> int \<Rightarrow> 'a \<Rightarrow> fault + 'a list" where
  "store xs i v = (if 0 \<le> i \<and> i < int (length xs) then Inr (xs[nat i := v]) else Inl (Panic IndexOutOfRange))"

text \<open>key.go: the only implementation of the \<open>Key\<close> interface is \<open>key128\<close>.\<close>

record key128 =
  material :: block16

definition GetBytes :: "key128 \<Rightarrow> byte list" where
  "GetBytes k = toSlice (material k)"

definition Len :: "key128 \<Rightarrow> int" where
  "Len k = int (length (toSlice (material k)))"

definition NewKey :: "block16 \<Rightarrow> key128" where
  "NewKey m = \<lparr>material = m\<rparr>"

record AES =
  key :: key128
  rounds :: int
  currentRound :: int
  roundKeys :: "block16 list"

definition zero16 :: block16 where
  "zero16 = B16 0 0 0 0 0 0 0 0 0 0 0 0 0 0 0 0"

definition New :: "key128 \<Rightarrow> fault + AES" where
  "New k =
     (if Len k = 128 div 8
      then Inr \<lparr>key = k, rounds = 10, currentRound = 0, roundKeys = replicate 11 zero16\<rparr>
      else Inl (Panic UnsupportedKeySize))"

section \<open>Galois field arithmetic and tables\<close>

text \<open>\<open>gmul\<close>: eight iterations over the state \<open>(a, b, p)\<close>.\<close>

fun gmul_loop :: "nat \<Rightarrow> byte \<Rightarrow> byte \<Rightarrow> byte \<Rightarrow> byte" where
  "gmul_loop 0 a b p = p"
| "gmul_loop (Suc n) a b p =
     (let p' = (if b AND 1 \<noteq> 0 then p XOR a else p);
          hiBitSet = (a AND 0x80 \<noteq> 0);
          a' = push_bit 1 a;
          a'' = (if hiBitSet then a' XOR 0x1B else a');
          b' = drop_bit 1 b
      in gmul_loop n a'' b' p')"

definition gmul :: "byte \<Rightarrow> byte \<Rightarrow> byte" where
  "gmul a b = gmul_loop 8 a b 0"

text \<open>
  Modelled from the spec: the table returned by \<open>sBox()\<close> is not among the source files; the
  spec (4.2) fixes it as the standard FIPS-197 S-box, 256 entries.
\<close>

definition sBox :: "byte list" where
  "sBox = [
   0x63, 0x7c, 0x77, 0x7b, 0xf2, 0x6b, 0x6f, 0xc5, 0x30, 0x01, 0x67, 0x2b, 0xfe, 0xd7, 0xab, 0x76,
   0xca, 0x82, 0xc9, 0x7d, 0xfa, 0x59, 0x47, 0xf0, 0xad, 0xd4, 0xa2, 0xaf, 0x9c, 0xa4, 0x72, 0xc0,
   0xb7, 0xfd, 0x93, 0x26, 0x36, 0x3f, 0xf7, 0xcc, 0x34, 0xa5, 0xe5, 0xf1, 0x71, 0xd8, 0x31, 0x15,
   0x04, 0xc7, 0x23, 0xc3, 0x18, 0x96, 0x05, 0x9a, 0x07, 0x12, 0x80, 0xe2, 0xeb, 0x27, 0xb2, 0x75,
   0x09, 0x83, 0x2c, 0x1a, 0x1b, 0x6e, 0x5a, 0xa0, 0x52, 0x3b, 0xd6, 0xb3, 0x29, 0xe3, 0x2f, 0x84,
   0x53, 0xd1, 0x00, 0xed, 0x20, 0xfc, 0xb1, 0x5b, 0x6a, 0xcb, 0xbe, 0x39, 0x4a, 0x4c, 0x58, 0xcf,
   0xd0, 0xef, 0xaa, 0xfb, 0x43, 0x4d, 0x33, 0x85, 0x45, 0xf9, 0x02, 0x7f, 0x50, 0x3c, 0x9f, 0xa8,
   0x51, 0xa3, 0x40, 0x8f, 0x92, 0x9d, 0x38, 0xf5, 0xbc, 0xb6, 0xda, 0x21, 0x10, 0xff, 0xf3, 0xd2,
   0xcd, 0x0c, 0x13, 0xec, 0x5f, 0x97, 0x44, 0x17, 0xc4, 0xa7, 0x7e, 0x3d, 0x64, 0x5d, 0x19, 0x73,
   0x60, 0x81, 0x4f, 0xdc, 0x22, 0x2a, 0x90, 0x88, 0x46, 0xee, 0xb8, 0x14, 0xde, 0x5e, 0x0b, 0xdb,
   0xe0, 0x32, 0x3a, 0x0a, 0x49, 0x06, 0x24, 0x5c, 0xc2, 0xd3, 0xac, 0x62, 0x91, 0x95, 0xe4, 0x79,
   0xe7, 0xc8, 0x37, 0x6d, 0x8d, 0xd5, 0x4e, 0xa9, 0x6c, 0x56, 0xf4, 0xea, 0x65, 0x7a, 0xae, 0x08,
   0xba, 0x78, 0x25, 0x2e, 0x1c, 0xa6, 0xb4, 0xc6, 0xe8, 0xdd, 0x74, 0x1f, 0x4b, 0xbd, 0x8b, 0x8a,
   0x70, 0x3e, 0xb5, 0x66, 0x48, 0x03, 0xf6, 0x0e, 0x61, 0x35, 0x57, 0xb9, 0x86, 0xc1, 0x1d, 0x9e,
   0xe1, 0xf8, 0x98, 0x11, 0x69, 0xd9, 0x8e, 0x94, 0x9b, 0x1e, 0x87, 0xe9, 0xce, 0x55, 0x28, 0xdf,
   0x8c, 0xa1, 0x89, 0x0d, 0xbf, 0xe6, 0x42, 0x68, 0x41, 0x99, 0x2d, 0x0f, 0xb0, 0x54, 0xbb, 0x16
  ]"

text \<open>
  Modelled from the spec: the table returned by \<open>invSBox()\<close> is not among the source files;
  the spec (4.2) fixes it as the standard FIPS-197 inverse S-box.
\<close>

definition invSBox :: "byte list" where
  "invSBox = [
   0x52, 0x09, 0x6a, 0xd5, 0x30, 0x36, 0xa5, 0x38, 0xbf, 0x40, 0xa3, 0x9e, 0x81, 0xf3, 0xd7, 0xfb,
   0x7c, 0xe3, 0x39, 0x82, 0x9b, 0x2f, 0xff, 0x87, 0x34, 0x8e, 0x43, 0x44, 0xc4, 0xde, 0xe9, 0xcb,
   0x54, 0x7b, 0x94, 0x32, 0xa6, 0xc2, 0x23, 0x3d, 0xee, 0x4c, 0x95, 0x0b, 0x42, 0xfa, 0xc3, 0x4e,
   0x08, 0x2e, 0xa1, 0x66, 0x28, 0xd9, 0x24, 0xb2, 0x76, 0x5b, 0xa2, 0x49, 0x6d, 0x8b, 0xd1, 0x25,
   0x72, 0xf8, 0xf6, 0x64, 0x86, 0x68, 0x98, 0x16, 0xd4, 0xa4, 0x5c, 0xcc, 0x5d, 0x65, 0xb6, 0x92,
   0x6c, 0x70, 0x48, 0x50, 0xfd, 0xed, 0xb9, 0xda, 0x5e, 0x15, 0x46, 0x57, 0xa7, 0x8d, 0x9d, 0x84,
   0x90, 0xd8, 0xab, 0x00, 0x8c, 0xbc, 0xd3, 0x0a, 0xf7, 0xe4, 0x58, 0x05, 0xb8, 0xb3, 0x45, 0x06,
   0xd0, 0x2c, 0x1e, 0x8f, 0xca, 0x3f, 0x0f, 0x02, 0xc1, 0xaf, 0xbd, 0x03, 0x01, 0x13, 0x8a, 0x6b,
   0x3a, 0x91, 0x11, 0x41, 0x4f, 0x67, 0xdc, 0xea, 0x97, 0xf2, 0xcf, 0xce, 0xf0, 0xb4, 0xe6, 0x73,
   0x96, 0xac, 0x74, 0x22, 0xe7, 0xad, 0x35, 0x85, 0xe2, 0xf9, 0x37, 0xe8, 0x1c, 0x75, 0xdf, 0x6e,
   0x47, 0xf1, 0x1a, 0x71, 0x1d, 0x29, 0xc5, 0x89, 0x6f, 0xb7, 0x62, 0x0e, 0xaa, 0x18, 0xbe, 0x1b,
   0xfc, 0x56, 0x3e, 0x4b, 0xc6, 0xd2, 0x79, 0x20, 0x9a, 0xdb, 0xc0, 0xfe, 0x78, 0xcd, 0x5a, 0xf4,
   0x1f, 0xdd, 0xa8, 0x33, 0x88, 0x07, 0xc7, 0x31, 0xb1, 0x12, 0x10, 0x59, 0x27, 0x80, 0xec, 0x5f,
   0x60, 0x51, 0x7f, 0xa9, 0x19, 0xb5, 0x4a, 0x0d, 0x2d, 0xe5, 0x7a, 0x9f, 0x93, 0xc9, 0x9c, 0xef,
   0xa0, 0xe0, 0x3b, 0x4d, 0xae, 0x2a, 0xf5, 0xb0, 0xc8, 0xeb, 0xbb, 0x3c, 0x83, 0x53, 0x99, 0x61,
   0x17, 0x2b, 0x04, 0x7e, 0xba, 0x77, 0xd6, 0x26, 0xe1, 0x69, 0x14, 0x63, 0x55, 0x21, 0x0c, 0x7d
  ]"

text \<open>A table of 256 entries indexed by a byte: the index is always in range.\<close>

definition lookup :: "byte list \<Rightarrow> byte \<Rightarrow> byte" where
  "lookup t x = t ! unat x"

definition rconTable :: "word4 list" where
  "rconTable = [
     W4 0x01 0x00 0x00 0x00,
     W4 0x02 0x00 0x00 0x00,
     W4 0x04 0x00 0x00 0x00,
     W4 0x08 0x00 0x00 0x00,
     W4 0x10 0x00 0x00 0x00,
     W4 0x20 0x00 0x00 0x00,
     W4 0x40 0x00 0x00 0x00,
     W4 0x80 0x00 0x00 0x00,
     W4 0x1B 0x00 0x00 0x00,
     W4 0x36 0x00 0x00 0x00]"

section \<open>State transforms\<close>

fun map_word4 :: "(byte \<Rightarrow> byte) \<Rightarrow> word4 \<Rightarrow> word4" where
  "map_word4 f (W4 a b c d) = W4 (f a) (f b) (f c) (f d)"

fun xor :: "word4 \<Rightarrow> word4 \<Rightarrow> word4" where
  "xor (W4 a0 a1 a2 a3) (W4 b0 b1 b2 b3) = W4 (a0 XOR b0) (a1 XOR b1) (a2 XOR b2) (a3 XOR b3)"

fun xorMatrix :: "matrix \<Rightarrow> matrix \<Rightarrow> matrix" where
  "xorMatrix (M4 a0 a1 a2 a3) (M4 b0 b1 b2 b3) = M4 (xor a0 b0) (xor a1 b1) (xor a2 b2) (xor a3 b3)"

definition addRoundKey :: "matrix \<Rightarrow> matrix \<Rightarrow> matrix" where
  "addRoundKey state k = xorMatrix state k"

fun subMatrix :: "matrix \<Rightarrow> matrix" where
  "subMatrix (M4 r0 r1 r2 r3) =
     M4 (map_word4 (lookup sBox) r0) (map_word4 (lookup sBox) r1)
        (map_word4 (lookup sBox) r2) (map_word4 (lookup sBox) r3)"

fun invSubMatrix :: "matrix \<Rightarrow> matrix" where
  "invSubMatrix (M4 r0 r1 r2 r3) =
     M4 (map_word4 (lookup invSBox) r0) (map_word4 (lookup invSBox) r1)
        (map_word4 (lookup invSBox) r2) (map_word4 (lookup invSBox) r3)"

fun shiftRows :: "matrix \<Rightarrow> matrix" where
  "shiftRows (M4 (W4 a0 a1 a2 a3) (W4 b0 b1 b2 b3) (W4 c0 c1 c2 c3) (W4 d0 d1 d2 d3)) =
     M4 (W4 a0 a1 a2 a3) (W4 b1 b2 b3 b0) (W4 c2 c3 c0 c1) (W4 d3 d0 d1 d2)"

fun invShiftRows :: "matrix \<Rightarrow> matrix" where
  "invShiftRows (M4 (W4 a0 a1 a2 a3) (W4 b0 b1 b2 b3) (W4 c0 c1 c2 c3) (W4 d0 d1 d2 d3)) =
     M4 (W4 a0 a1 a2 a3) (W4 b3 b0 b1 b2) (W4 c2 c3 c0 c1) (W4 d1 d2 d3 d0)"

text \<open>One column \<open>c\<close> of \<open>mixColumns\<close>: the four assignments of the loop body.\<close>

definition mixColumn :: "byte \<Rightarrow> byte \<Rightarrow> byte \<Rightarrow> byte \<Rightarrow> byte \<times> byte \<times> byte \<times> byte" where
  "mixColumn s0 s1 s2 s3 =
     (gmul 0x02 s0 XOR gmul 0x03 s1 XOR s2 XOR s3,
      s0 XOR gmul 0x02 s1 XOR gmul 0x03 s2 XOR s3,
      s0 XOR s1 XOR gmul 0x02 s2 XOR gmul 0x03 s3,
      gmul 0x03 s0 XOR s1 XOR s2 XOR gmul 0x02 s3)"

fun byColumns :: "(byte \<Rightarrow> byte \<Rightarrow> byte \<Rightarrow> byte \<Rightarrow> byte \<times> byte \<times> byte \<times> byte) \<Rightarrow> matrix \<Rightarrow> matrix" where
  "byColumns f (M4 (W4 a0 a1 a2 a3) (W4 b0 b1 b2 b3) (W4 c0 c1 c2 c3) (W4 d0 d1 d2 d3)) =
     (case (f a0 b0 c0 d0, f a1 b1 c1 d1, f a2 b2 c2 d2, f a3 b3 c3 d3) of
        ((x0, y0, z0, u0), (x1, y1, z1, u1), (x2, y2, z2, u2), (x3, y3, z3, u3)) \<Rightarrow>
          M4 (W4 x0 x1 x2 x3) (W4 y0 y1 y2 y3) (W4 z0 z1 z2 z3) (W4 u0 u1 u2 u3))"

definition mixColumns :: "matrix \<Rightarrow> matrix" where
  "mixColumns s = byColumns mixColumn s"

text \<open>
  Modelled from the spec: \<open>invMixColumns\<close> is called by \<open>decryptRound\<close> but is not among the
  source files; the spec (4.3) gives it as the column-wise product with the inverse matrix
  rows {14,11,13,9}, {9,14,11,13}, {13,9,14,11}, {11,13,9,14} in GF(2^8).
\<close>

definition invMixColumn :: "byte \<Rightarrow> byte \<Rightarrow> byte \<Rightarrow> byte \<Rightarrow> byte \<times> byte \<times> byte \<times> byte" where
  "invMixColumn s0 s1 s2 s3 =
     (gmul 0x0e s0 XOR gmul 0x0b s1 XOR gmul 0x0d s2 XOR gmul 0x09 s3,
      gmul 0x09 s0 XOR gmul 0x0e s1 XOR gmul 0x0b s2 XOR gmul 0x0d s3,
      gmul 0x0d s0 XOR gmul 0x09 s1 XOR gmul 0x0e s2 XOR gmul 0x0b s3,
      gmul 0x0b s0 XOR gmul 0x0d s1 XOR gmul 0x09 s2 XOR gmul 0x0e s3)"

definition invMixColumns :: "matrix \<Rightarrow> matrix" where
  "invMixColumns s = byColumns invMixColumn s"

fun convertArrayToMatrix :: "block16 \<Rightarrow> matrix" where
  "convertArrayToMatrix (B16 b0 b1 b2 b3 b4 b5 b6 b7 b8 b9 b10 b11 b12 b13 b14 b15) =
     M4 (W4 b0 b4 b8 b12) (W4 b1 b5 b9 b13) (W4 b2 b6 b10 b14) (W4 b3 b7 b11 b15)"

fun convertMatrixToArray :: "matrix \<Rightarrow> block16" where
  "convertMatrixToArray (M4 (W4 m00 m01 m02 m03) (W4 m10 m11 m12 m13)
                            (W4 m20 m21 m22 m23) (W4 m30 m31 m32 m33)) =
     B16 m00 m10 m20 m30 m01 m11 m21 m31 m02 m12 m22 m32 m03 m13 m23 m33"

section \<open>Key schedule\<close>

fun rotWord :: "word4 \<Rightarrow> word4" where
  "rotWord (W4 w0 w1 w2 w3) = W4 w1 w2 w3 w0"

definition subWord :: "word4 \<Rightarrow> word4" where
  "subWord w = map_word4 (lookup sBox) w"

definition rcon :: "int \<Rightarrow> word4 \<Rightarrow> fault + word4" where
  "rcon round w = (case index rconTable (round - 1) of Inl e \<Rightarrow> Inl e | Inr r \<Rightarrow> Inr (xor w r))"

text \<open>
  The body of \<open>generateNewRoundKey\<close> for a round after the first.  The slices \<open>w0 .. w7\<close>
  all hold exactly four bytes, so they are kept as \<open>[4]byte\<close> values.
\<close>

fun expandRoundKey :: "int \<Rightarrow> block16 \<Rightarrow> fault + block16" where
  "expandRoundKey round (B16 b0 b1 b2 b3 b4 b5 b6 b7 b8 b9 b10 b11 b12 b13 b14 b15) =
     (let w0 = W4 b0 b1 b2 b3; w1 = W4 b4 b5 b6 b7; w2 = W4 b8 b9 b10 b11; w3 = W4 b12 b13 b14 b15;
          t = rotWord w3;
          t = subWord t
      in case rcon round t of Inl e \<Rightarrow> Inl e | Inr t \<Rightarrow>
        (let w4 = xor w0 t; w5 = xor w4 w1; w6 = xor w5 w2; w7 = xor w6 w3
         in case (w4, w5, w6, w7) of (W4 c0 c1 c2 c3, W4 c4 c5 c6 c7, W4 c8 c9 c10 c11, W4 c12 c13 c14 c15) \<Rightarrow>
              Inr (B16 c0 c1 c2 c3 c4 c5 c6 c7 c8 c9 c10 c11 c12 c13 c14 c15)))"

definition generateNewRoundKey :: "AES \<Rightarrow> fault + block16" where
  "generateNewRoundKey a =
     (if currentRound a = 0 then toArray16 (GetBytes (key a))
      else case index (roundKeys a) (currentRound a - 1) of
             Inl e \<Rightarrow> Inl e
           | Inr previousRoundKey \<Rightarrow> expandRoundKey (currentRound a) previousRoundKey)"

definition nextRound :: "AES \<Rightarrow> AES" where
  "nextRound a = a\<lparr>currentRound := currentRound a + 1\<rparr>"

definition previousRound :: "AES \<Rightarrow> AES" where
  "previousRound a = a\<lparr>currentRound := currentRound a - 1\<rparr>"

text \<open>The loop of \<open>generateAllKeys\<close>, from index \<open>i\<close> on.\<close>

function generateAllKeys_loop :: "int \<Rightarrow> AES \<Rightarrow> fault + AES" where
  "generateAllKeys_loop i a =
     (if i \<le> rounds a then
        (case generateNewRoundKey a of
           Inl e \<Rightarrow> Inl e
         | Inr k \<Rightarrow>
            (case store (roundKeys a) i k of
               Inl e \<Rightarrow> Inl e
             | Inr rks \<Rightarrow> generateAllKeys_loop (i + 1) (nextRound (a\<lparr>roundKeys := rks\<rparr>))))
      else Inr a)"
  by pat_completeness auto
termination
  by (relation "measure (\<lambda>(i, a). nat (rounds a + 1 - i))") (auto simp: nextRound_def)

declare generateAllKeys_loop.simps [simp del]

definition generateAllKeys :: "AES \<Rightarrow> fault + AES" where
  "generateAllKeys a = generateAllKeys_loop 0 (a\<lparr>currentRound := 0\<rparr>)"

section \<open>Block cipher\<close>

definition encryptRound :: "AES \<Rightarrow> matrix \<Rightarrow> fault + matrix" where
  "encryptRound a state =
     (case index (roundKeys a) (currentRound a) of
        Inl e \<Rightarrow> Inl e
      | Inr rk \<Rightarrow>
         (let k = convertArrayToMatrix rk in
          if currentRound a = 0 then Inr (addRoundKey state k)
          else
            (let r = subMatrix state;
                 r = shiftRows r;
                 r = (if currentRound a < rounds a then mixColumns r else r)
             in Inr (addRoundKey r k))))"

definition decryptRound :: "AES \<Rightarrow> matrix \<Rightarrow> fault + matrix" where
  "decryptRound a state =
     (case index (roundKeys a) (currentRound a) of
        Inl e \<Rightarrow> Inl e
      | Inr rk \<Rightarrow>
         (let k = convertArrayToMatrix rk in
          if currentRound a = rounds a then Inr (addRoundKey state k)
          else
            (let r = invShiftRows state;
                 r = invSubMatrix r;
                 r = addRoundKey r k
             in Inr (if currentRound a > 0 then invMixColumns r else r))))"

function EncryptBlock_loop :: "int \<Rightarrow> AES \<Rightarrow> matrix \<Rightarrow> fault + (matrix \<times> AES)" where
  "EncryptBlock_loop j a block =
     (if j \<le> rounds a then
        (case encryptRound a block of
           Inl e \<Rightarrow> Inl e
         | Inr block' \<Rightarrow> EncryptBlock_loop (j + 1) (nextRound a) block')
      else Inr (block, a))"
  by pat_completeness auto
termination
  by (relation "measure (\<lambda>(j, a, b). nat (rounds a + 1 - j))") (auto simp: nextRound_def)

declare EncryptBlock_loop.simps [simp del]

definition EncryptBlock :: "AES \<Rightarrow> block16 \<Rightarrow> fault + (matrix \<times> AES)" where
  "EncryptBlock a b =
     (case generateAllKeys a of
        Inl e \<Rightarrow> Inl e
      | Inr a1 \<Rightarrow> EncryptBlock_loop 0 (a1\<lparr>currentRound := 0\<rparr>) (convertArrayToMatrix b))"

function DecryptBlock_loop :: "int \<Rightarrow> AES \<Rightarrow> matrix \<Rightarrow> fault + (matrix \<times> AES)" where
  "DecryptBlock_loop j a block =
     (if j \<ge> 0 then
        (case decryptRound a block of
           Inl e \<Rightarrow> Inl e
         | Inr block' \<Rightarrow> DecryptBlock_loop (j - 1) (previousRound a) block')
      else Inr (block, a))"
  by pat_completeness auto
termination
  by (relation "measure (\<lambda>(j, a, b). nat (j + 1))") auto

declare DecryptBlock_loop.simps [simp del]

definition DecryptBlock :: "AES \<Rightarrow> block16 \<Rightarrow> fault + (matrix \<times> AES)" where
  "DecryptBlock a b =
     (case generateAllKeys a of
        Inl e \<Rightarrow> Inl e
      | Inr a1 \<Rightarrow> DecryptBlock_loop (rounds a1) (a1\<lparr>currentRound := rounds a1\<rparr>) (convertArrayToMatrix b))"

section \<open>Padding scheme\<close>

text \<open>\<open>split\<close>: the loop cuts the buffer every 16 bytes, the final block taking what is left.\<close>

function split_loop :: "byte list \<Rightarrow> nat \<Rightarrow> byte list list \<Rightarrow> byte list list" where
  "split_loop plainText i blocks =
     (if i < length plainText
      then (let end = (if i + 16 > length plainText then length plainText else i + 16)
            in split_loop plainText (i + 16) (blocks @ [take (end - i) (drop i plainText)]))
      else blocks)"
  by pat_completeness auto
termination
  by (relation "measure (\<lambda>(p, i, b). length p - i)") auto

declare split_loop.simps [simp del]

definition split :: "byte list \<Rightarrow> byte list list" where
  "split plainText = split_loop plainText 0 []"

definition join :: "byte list list \<Rightarrow> byte list" where
  "join blocks = foldl (\<lambda>r block. r @ block) [] blocks"

text \<open>
  \<open>padding\<close>: a 16-byte block gets a whole block of \<open>0x10\<close> appended; otherwise the block
  is copied into a fresh 16-byte buffer (\<open>copy\<close> moves at most 16 bytes) and the positions
  from \<open>l\<close> on are set to \<open>byte(16 - l)\<close>.
\<close>

definition padding :: "byte list \<Rightarrow> byte list" where
  "padding block =
     (let n = 16; l = length block in
      if l = n then block @ replicate 16 0x10
      else
        (let r = int n - int l;
             s = replicate 16 (0::byte);
             s = take (min 16 l) block @ drop (min 16 l) s
         in foldl (\<lambda>s i. s[i := word_of_int r]) s [l..<n]))"

definition RemovePadding :: "byte list \<Rightarrow> fault + byte list" where
  "RemovePadding b =
     (let blocks = split b in
      case index blocks (int (length blocks) - 1) of
        Inl e \<Rightarrow> Inl e
      | Inr lastBlock \<Rightarrow>
         (case index b (int (length b) - 1) of
            Inl e \<Rightarrow> Inl e
          | Inr p \<Rightarrow>
             if p = 0 \<or> uint p > int (length lastBlock) then Inl (Err InvalidPadding)
             else
               (let begin = int (length lastBlock) - uint p in
                if begin < 0 then Inl (Err InvalidPadding)
                else if \<not> list_all (\<lambda>x. x = p) (drop (nat begin) lastBlock) then Inl (Err InvalidPadding)
                else
                  (let lastBlock = take (nat (int (length lastBlock) - uint p)) lastBlock
                   in Inr (join (blocks[length blocks - 1 := lastBlock]))))))"

definition createBlocks :: "byte list \<Rightarrow> fault + byte list list" where
  "createBlocks b =
     (let blocks = split b in
      case index blocks (int (length blocks) - 1) of
        Inl e \<Rightarrow> Inl e
      | Inr lastBlock \<Rightarrow>
         (let paddedLast = padding lastBlock in
          if length paddedLast = 16 then Inr (blocks[length blocks - 1 := paddedLast])
          else if length paddedLast = 32 then
            (let b' = split paddedLast in
             case index b' 0 of
               Inl e \<Rightarrow> Inl e
             | Inr b0 \<Rightarrow>
                (case index b' 1 of
                   Inl e \<Rightarrow> Inl e
                 | Inr b1 \<Rightarrow> Inr (blocks[length blocks - 1 := b0] @ [b1])))
          else Inr blocks))"

section \<open>Modes of operation\<close>

definition xorBytes :: "byte list \<Rightarrow> byte list \<Rightarrow> byte list" where
  "xorBytes a b = map (\<lambda>(x, y). x XOR y) (zip a b)"

text \<open>The \<open>range\<close> loops over the blocks, carrying the cipher object and the output.\<close>

fun encryptECB_loop :: "AES \<Rightarrow> byte list list \<Rightarrow> byte list \<Rightarrow> fault + (byte list \<times> AES)" where
  "encryptECB_loop a [] r = Inr (r, a)"
| "encryptECB_loop a (block # blocks) r =
     (case toArray16 block of
        Inl e \<Rightarrow> Inl e
      | Inr arr \<Rightarrow>
         (case EncryptBlock a arr of
            Inl e \<Rightarrow> Inl e
          | Inr (cipherBlock, a') \<Rightarrow>
             (let c = convertMatrixToArray cipherBlock; s = toSlice c
              in encryptECB_loop a' blocks (r @ s))))"

definition encryptECB :: "AES \<Rightarrow> byte list \<Rightarrow> fault + (byte list \<times> AES)" where
  "encryptECB a plainText =
     (case createBlocks plainText of
        Inl e \<Rightarrow> Inl e
      | Inr blocks \<Rightarrow> encryptECB_loop a blocks [])"

fun encryptCBC_loop :: "AES \<Rightarrow> byte list list \<Rightarrow> byte list \<Rightarrow> byte list \<Rightarrow> fault + (byte list \<times> AES)" where
  "encryptCBC_loop a [] previousCipherBlock r = Inr (r, a)"
| "encryptCBC_loop a (block # blocks) previousCipherBlock r =
     (let block = xorBytes block previousCipherBlock in
      case toArray16 block of
        Inl e \<Rightarrow> Inl e
      | Inr arr \<Rightarrow>
         (case EncryptBlock a arr of
            Inl e \<Rightarrow> Inl e
          | Inr (cipherBlock, a') \<Rightarrow>
             (let c = convertMatrixToArray cipherBlock; s = toSlice c
              in encryptCBC_loop a' blocks s (r @ s))))"

definition encryptCBC :: "AES \<Rightarrow> byte list \<Rightarrow> byte list \<Rightarrow> fault + (byte list \<times> AES)" where
  "encryptCBC a plainText iv =
     (case createBlocks plainText of
        Inl e \<Rightarrow> Inl e
      | Inr blocks \<Rightarrow>
         if length iv \<noteq> 16 then Inl (Panic IVMustHave16Bytes)
         else
           (case encryptCBC_loop a blocks iv [] of
              Inl e \<Rightarrow> Inl e
            | Inr (r, a') \<Rightarrow> Inr (iv @ r, a')))"

text \<open>
  \<open>addOneToByteSlice\<close>: from the final byte leftwards, the first byte below 255 is incremented
  and the slice returned; a byte equal to 255 is reset to 0.  When every byte was 255 a byte
  \<open>1\<close> is put in front.
\<close>

function addOneToByteSlice_loop :: "byte list \<Rightarrow> int \<Rightarrow> byte list" where
  "addOneToByteSlice_loop b i =
     (if i \<ge> 0 then
        (if b ! nat i < 255 then b[nat i := b ! nat i + 1]
         else addOneToByteSlice_loop (b[nat i := 0]) (i - 1))
      else [1] @ b)"
  by pat_completeness auto
termination
  by (relation "measure (\<lambda>(b, i). nat (i + 1))") auto

declare addOneToByteSlice_loop.simps [simp del]

definition addOneToByteSlice :: "byte list \<Rightarrow> byte list" where
  "addOneToByteSlice b = addOneToByteSlice_loop b (int (length b) - 1)"

fun encryptCTR_loop :: "AES \<Rightarrow> byte list list \<Rightarrow> byte list \<Rightarrow> byte list \<Rightarrow> fault + (byte list \<times> AES)" where
  "encryptCTR_loop a [] counter r = Inr (r, a)"
| "encryptCTR_loop a (block # blocks) counter r =
     (case toArray16 counter of
        Inl e \<Rightarrow> Inl e
      | Inr arr \<Rightarrow>
         (case EncryptBlock a arr of
            Inl e \<Rightarrow> Inl e
          | Inr (cipherBlock, a') \<Rightarrow>
             (let c = convertMatrixToArray cipherBlock; s = toSlice c;
                  xored = xorBytes block s
              in encryptCTR_loop a' blocks (addOneToByteSlice counter) (r @ xored))))"

definition encryptCTR :: "AES \<Rightarrow> byte list \<Rightarrow> byte list \<Rightarrow> fault + (byte list \<times> AES)" where
  "encryptCTR a plainText counter = encryptCTR_loop a (split plainText) counter counter"

fun decryptCBC_loop :: "AES \<Rightarrow> byte list list \<Rightarrow> byte list \<Rightarrow> byte list \<Rightarrow> fault + (byte list \<times> AES)" where
  "decryptCBC_loop a [] previousCipherBlock r = Inr (r, a)"
| "decryptCBC_loop a (block # blocks) previousCipherBlock r =
     (case toArray16 block of
        Inl e \<Rightarrow> Inl e
      | Inr arr \<Rightarrow>
         (case DecryptBlock a arr of
            Inl e \<Rightarrow> Inl e
          | Inr (cipherBlock, a') \<Rightarrow>
             (let c = convertMatrixToArray cipherBlock; s = toSlice c;
                  s = xorBytes s previousCipherBlock
              in decryptCBC_loop a' blocks block (r @ s))))"

definition decryptCBC :: "AES \<Rightarrow> byte list \<Rightarrow> byte list \<Rightarrow> fault + (byte list \<times> AES)" where
  "decryptCBC a encrypted iv =
     (let blocks = split encrypted in
      if length iv \<noteq> 16 then Inl (Panic IVMustHave16Bytes)
      else
        (case decryptCBC_loop a blocks iv [] of
           Inl e \<Rightarrow> Inl e
         | Inr (r, a') \<Rightarrow>
            (case RemovePadding r of
               Inl e \<Rightarrow> Inl e
             | Inr b \<Rightarrow> Inr (b, a'))))"

fun decryptECB_loop :: "AES \<Rightarrow> byte list list \<Rightarrow> byte list \<Rightarrow> fault + (byte list \<times> AES)" where
  "decryptECB_loop a [] r = Inr (r, a)"
| "decryptECB_loop a (block # blocks) r =
     (case toArray16 block of
        Inl e \<Rightarrow> Inl e
      | Inr arr \<Rightarrow>
         (case DecryptBlock a arr of
            Inl e \<Rightarrow> Inl e
          | Inr (cipherBlock, a') \<Rightarrow>
             (let c = convertMatrixToArray cipherBlock; s = toSlice c
              in decryptECB_loop a' blocks (r @ s))))"

text \<open>\<open>decryptECB\<close> turns the error of \<open>RemovePadding\<close> into a panic.\<close>

definition decryptECB :: "AES \<Rightarrow> byte list \<Rightarrow> fault + (byte list \<times> AES)" where
  "decryptECB a encrypted =
     (case decryptECB_loop a (split encrypted) [] of
        Inl e \<Rightarrow> Inl e
      | Inr (r, a') \<Rightarrow>
         (case RemovePadding r of
            Inl (Err m) \<Rightarrow> Inl (Panic (PanicOfError m))
          | Inl (Panic p) \<Rightarrow> Inl (Panic p)
          | Inr b \<Rightarrow> Inr (b, a')))"

text \<open>\<open>type Mode int\<close> with the constants \<open>ECB\<close>, \<open>CBC\<close>, \<open>CTR\<close> numbered by \<open>iota\<close>.\<close>

type_synonym Mode = int

definition ECB :: Mode where "ECB = 0"
definition CBC :: Mode where "CBC = 1"
definition CTR :: Mode where "CTR = 2"

text \<open>
  \<open>Encrypt\<close> draws the IV or nonce from \<open>key.Bit128()\<close>, a fresh random 16-byte key; the
  drawn key is the parameter \<open>rnd\<close>.
\<close>

definition Encrypt :: "AES \<Rightarrow> Mode \<Rightarrow> byte list \<Rightarrow> key128 \<Rightarrow> fault + (byte list \<times> AES)" where
  "Encrypt a mode plaintext rnd =
     (if mode = ECB then encryptECB a plaintext
      else if mode = CBC then encryptCBC a plaintext (GetBytes rnd)
      else if mode = CTR then encryptCTR a plaintext (GetBytes rnd)
      else Inl (Err InvalidMode))"

definition Decrypt :: "AES \<Rightarrow> Mode \<Rightarrow> byte list \<Rightarrow> fault + (byte list \<times> AES)" where
  "Decrypt a mode encrypted =
     (if mode = ECB then decryptECB a encrypted
      else if mode = CBC then
        (if length encrypted < 16 * 2 then Inl (Err InvalidEncryptedTextCBC)
         else decryptCBC a (drop 16 encrypted) (take 16 encrypted))
      else if mode = CTR then
        (if length encrypted \<le> 16 then Inl (Err InvalidEncryptedTextCTR)
         else
           (case encryptCTR a (drop 16 encrypted) (take 16 encrypted) of
              Inl e \<Rightarrow> Inl e
            | Inr (d, a') \<Rightarrow>
               if length d < 16 then Inl (Panic SliceBoundsOutOfRange) else Inr (drop 16 d, a')))
      else Inl (Err InvalidMode))"

section \<open>Padding-oracle attack\<close>

record Oracle =
  oracle_key :: key128

text \<open>
  \<open>Oracle.Decrypt\<close> builds a new cipher from its key, decrypts in CBC mode and hands back
  only the error: \<open>Inr ()\<close> stands for \<open>nil\<close>.
\<close>

definition Oracle_Decrypt :: "Oracle \<Rightarrow> byte list \<Rightarrow> fault + unit" where
  "Oracle_Decrypt oracle encrypted =
     (case New (oracle_key oracle) of
        Inl e \<Rightarrow> Inl e
      | Inr aes \<Rightarrow>
         (case Decrypt aes CBC encrypted of
            Inl e \<Rightarrow> Inl e
          | Inr _ \<Rightarrow> Inr ()))"

text \<open>The first loop of \<open>findPaddingByte\<close>: \<open>prev[x] = dec[x] ^ paddingValue\<close> for \<open>x\<close> from 15 down to \<open>z + 1\<close>.\<close>

function adjustPrev_loop :: "byte list \<Rightarrow> byte list \<Rightarrow> byte \<Rightarrow> int \<Rightarrow> int \<Rightarrow> fault + byte list" where
  "adjustPrev_loop prev dec paddingValue z x =
     (if x > z then
        (case index dec x of
           Inl e \<Rightarrow> Inl e
         | Inr d \<Rightarrow>
            (case store prev x (d XOR paddingValue) of
               Inl e \<Rightarrow> Inl e
             | Inr prev' \<Rightarrow> adjustPrev_loop prev' dec paddingValue z (x - 1)))
      else Inr prev)"
  by pat_completeness auto
termination
  by (relation "measure (\<lambda>(p, d, v, z, x). nat (x - z))") auto

declare adjustPrev_loop.simps [simp del]

text \<open>
  The search loop of \<open>findPaddingByte\<close> over the candidates \<open>j\<close>.  The slice \<open>prev\<close> is
  changed in place, so the loop carries it and returns it with the byte found.
\<close>

function findPaddingByte_loop :: "Oracle \<Rightarrow> byte list \<Rightarrow> byte list \<Rightarrow> int \<Rightarrow> int \<Rightarrow> fault + (byte \<times> byte list)" where
  "findPaddingByte_loop oracle prev lastBlock z j =
     (if j \<le> 0xff then
        (case store prev z (word_of_int j) of
           Inl e \<Rightarrow> Inl e
         | Inr prev1 \<Rightarrow>
            (case Oracle_Decrypt oracle (prev1 @ lastBlock) of
               Inl (Panic p) \<Rightarrow> Inl (Panic p)
             | Inl (Err m) \<Rightarrow> findPaddingByte_loop oracle prev1 lastBlock z (j + 1)
             | Inr _ \<Rightarrow>
                if z = 15 then
                  (case index prev1 14 of
                     Inl e \<Rightarrow> Inl e
                   | Inr v \<Rightarrow>
                      (case store prev1 14 (v XOR 1) of
                         Inl e \<Rightarrow> Inl e
                       | Inr prev2 \<Rightarrow>
                          (case Oracle_Decrypt oracle (prev2 @ lastBlock) of
                             Inl (Panic p) \<Rightarrow> Inl (Panic p)
                           | Inl (Err m) \<Rightarrow> findPaddingByte_loop oracle prev2 lastBlock z (j + 1)
                           | Inr _ \<Rightarrow> Inr (word_of_int j, prev2))))
                else Inr (word_of_int j, prev1)))
      else Inl (Panic CouldNotFindPaddingByte))"
  by pat_completeness auto
termination
  by (relation "measure (\<lambda>(oracle, prev, lastBlock, z, j). nat (256 - j))") auto

declare findPaddingByte_loop.simps [simp del]

definition findPaddingByte :: "Oracle \<Rightarrow> byte list \<Rightarrow> byte list \<Rightarrow> byte list \<Rightarrow> int \<Rightarrow> fault + (byte \<times> byte list)" where
  "findPaddingByte oracle prev lastBlock dec z =
     (let paddingValue = (word_of_int (16 - z) :: byte) in
      case (if paddingValue > 0x1 then adjustPrev_loop prev dec paddingValue z 15 else Inr prev) of
        Inl e \<Rightarrow> Inl e
      | Inr prev' \<Rightarrow> findPaddingByte_loop oracle prev' lastBlock z 0)"

text \<open>
  The inner loop of \<open>PaddingOracle\<close> over the byte positions \<open>z\<close> of one block, carrying the
  forged previous block \<open>p\<close>, the intermediate bytes \<open>dec\<close> and the output \<open>decrypted\<close>.
\<close>

function PaddingOracle_bytes ::
  "Oracle \<Rightarrow> byte list \<Rightarrow> byte list \<Rightarrow> int \<Rightarrow> int \<Rightarrow> byte list \<Rightarrow> byte list \<Rightarrow> byte list \<Rightarrow>
   fault + (byte list \<times> byte list \<times> byte list)" where
  "PaddingOracle_bytes oracle lastBlock prev i z p dec decrypted =
     (if z \<ge> 0 then
        (case findPaddingByte oracle p lastBlock dec z of
           Inl e \<Rightarrow> Inl e
         | Inr (b, p') \<Rightarrow>
            (let x = b XOR word_of_int (16 - z) in
             case store dec z x of
               Inl e \<Rightarrow> Inl e
             | Inr dec' \<Rightarrow>
                (case index prev z of
                   Inl e \<Rightarrow> Inl e
                 | Inr pz \<Rightarrow>
                    (case store decrypted (i * 16 + z) (x XOR pz) of
                       Inl e \<Rightarrow> Inl e
                     | Inr decrypted' \<Rightarrow>
                        PaddingOracle_bytes oracle lastBlock prev i (z - 1) p' dec' decrypted'))))
      else Inr (p, dec, decrypted))"
  by pat_completeness auto
termination
  by (relation "measure (\<lambda>(oracle, lastBlock, prev, i, z, p, dec, decrypted). nat (z + 1))") auto

declare PaddingOracle_bytes.simps [simp del]

text \<open>The outer loop of \<open>PaddingOracle\<close> over the blocks, from the final one down to block 1.\<close>

function PaddingOracle_blocks :: "Oracle \<Rightarrow> byte list list \<Rightarrow> int \<Rightarrow> byte list \<Rightarrow> fault + byte list" where
  "PaddingOracle_blocks oracle blocks i decrypted =
     (if i \<ge> 1 then
        (case index blocks i of
           Inl e \<Rightarrow> Inl e
         | Inr lastBlock \<Rightarrow>
            (case index blocks (i - 1) of
               Inl e \<Rightarrow> Inl e
             | Inr prev \<Rightarrow>
                (let dec = replicate 16 (0::byte);
                     p = replicate 16 (0::byte);
                     p = take (min 16 (length prev)) prev @ drop (min 16 (length prev)) p
                 in case PaddingOracle_bytes oracle lastBlock prev i 15 p dec decrypted of
                      Inl e \<Rightarrow> Inl e
                    | Inr (p', dec', decrypted') \<Rightarrow>
                        PaddingOracle_blocks oracle blocks (i - 1) decrypted')))
      else Inr decrypted)"
  by pat_completeness auto
termination
  by (relation "measure (\<lambda>(oracle, blocks, i, decrypted). nat i)") auto

declare PaddingOracle_blocks.simps [simp del]

definition PaddingOracle :: "Oracle \<Rightarrow> byte list \<Rightarrow> fault + byte list" where
  "PaddingOracle oracle encrypted =
     (let decrypted = replicate (length encrypted) (0::byte);
          blocks = split encrypted
      in case PaddingOracle_blocks oracle blocks (int (length blocks) - 1) decrypted of
           Inl e \<Rightarrow> Inl e
         | Inr decrypted' \<Rightarrow>
            if length decrypted' < 16 then Inl (Panic SliceBoundsOutOfRange)
            else Inr (drop 16 decrypted'))"

section \<open>Auxiliary definitions for the proofs\<close>

text \<open>The doubling step inside \<open>gmul\<close>.\<close>

definition xtime :: "byte \<Rightarrow> byte" where
  "xtime a = (if a AND 0x80 \<noteq> 0 then push_bit 1 a XOR 0x1B else push_bit 1 a)"

text \<open>The round key of round \<open>n\<close> as a function of the key material alone.\<close>

fun keySchedule :: "block16 \<Rightarrow> nat \<Rightarrow> block16" where
  "keySchedule k 0 = k"
| "keySchedule k (Suc n) = projr (expandRoundKey (int (Suc n)) (keySchedule k n))"

definition roundKeysOf :: "key128 \<Rightarrow> block16 list" where
  "roundKeysOf k = map (keySchedule (material k)) [0..<11]"

text \<open>What New guarantees of a cipher object and every block call preserves.\<close>

definition AES_ok :: "AES \<Rightarrow> bool" where
  "AES_ok a = (rounds a = 10 \<and> length (roundKeys a) = 11)"

text \<open>One round as a function of the round keys, the round number and the state.\<close>

definition encRound :: "block16 list \<Rightarrow> nat \<Rightarrow> matrix \<Rightarrow> matrix" where
  "encRound ks r st =
     (if r = 0 then addRoundKey st (convertArrayToMatrix (ks ! r))
      else if r < 10 then addRoundKey (mixColumns (shiftRows (subMatrix st))) (convertArrayToMatrix (ks ! r))
      else addRoundKey (shiftRows (subMatrix st)) (convertArrayToMatrix (ks ! r)))"

definition decRound :: "block16 list \<Rightarrow> nat \<Rightarrow> matrix \<Rightarrow> matrix" where
  "decRound ks r st =
     (if r = 10 then addRoundKey st (convertArrayToMatrix (ks ! r))
      else if r > 0 then invMixColumns (addRoundKey (invSubMatrix (invShiftRows st)) (convertArrayToMatrix (ks ! r)))
      else addRoundKey (invSubMatrix (invShiftRows st)) (convertArrayToMatrix (ks ! r)))"

definition cipher :: "key128 \<Rightarrow> block16 \<Rightarrow> block16" where
  "cipher k b = convertMatrixToArray (fold (encRound (roundKeysOf k)) [0..<11] (convertArrayToMatrix b))"

definition invCipher :: "key128 \<Rightarrow> block16 \<Rightarrow> block16" where
  "invCipher k b = convertMatrixToArray (fold (decRound (roundKeysOf k)) (rev [0..<11]) (convertArrayToMatrix b))"

text \<open>Cutting a buffer into 16-byte blocks, by recursion on the buffer.\<close>

function chunks :: "byte list \<Rightarrow> byte list list" where
  "chunks xs = (if xs = [] then [] else take 16 xs # chunks (drop 16 xs))"
  by pat_completeness auto
termination
  by (relation "measure length") auto

declare chunks.simps [simp del]

text \<open>The padding bytes that \<open>createBlocks\<close> appends to a whole plaintext.\<close>

definition padBytes :: "byte list \<Rightarrow> byte list" where
  "padBytes pt = replicate (16 - length pt mod 16) (of_nat (16 - length pt mod 16))"

text \<open>The checks of \<open>RemovePadding\<close> on a buffer made of whole blocks.\<close>

definition paddingValid :: "byte list \<Rightarrow> bool" where
  "paddingValid b =
     (last b \<noteq> 0 \<and> unat (last b) \<le> 16 \<and>
      list_all (\<lambda>x. x = last b) (drop (length b - unat (last b)) b))"

text \<open>A byte sequence read as a big-endian number, and as a little-endian one.\<close>

definition beValue :: "byte list \<Rightarrow> nat" where
  "beValue b = foldl (\<lambda>acc x. acc * 256 + unat x) 0 b"

fun leValue :: "byte list \<Rightarrow> nat" where
  "leValue [] = 0"
| "leValue (x # xs) = unat x + 256 * leValue xs"

text \<open>Adding one to a little-endian byte sequence, growing it on overflow.\<close>

fun incrLE :: "byte list \<Rightarrow> byte list" where
  "incrLE [] = [1]"
| "incrLE (x # xs) = (if x < 255 then (x + 1) # xs else 0 # incrLE xs)"

text \<open>The 16-byte array read off the front of a slice that is long enough.\<close>

definition asBlock :: "byte list \<Rightarrow> block16" where
  "asBlock s = projr (toArray16 s)"

text \<open>CBC chaining over whole blocks, as functions of the key.\<close>

fun cbcEnc :: "key128 \<Rightarrow> byte list \<Rightarrow> byte list list \<Rightarrow> byte list list" where
  "cbcEnc k prev [] = []"
| "cbcEnc k prev (b # bs) =
     (let c = toSlice (cipher k (asBlock (xorBytes b prev))) in c # cbcEnc k c bs)"

fun cbcDec :: "key128 \<Rightarrow> byte list \<Rightarrow> byte list list \<Rightarrow> byte list list" where
  "cbcDec k prev [] = []"
| "cbcDec k prev (c # cs) = xorBytes (toSlice (invCipher k (asBlock c))) prev # cbcDec k c cs"

text \<open>The CTR key stream applied to a list of blocks, the counter growing from block to block.\<close>

fun ctrBlocks :: "key128 \<Rightarrow> byte list \<Rightarrow> byte list list \<Rightarrow> byte list list" where
  "ctrBlocks k counter [] = []"
| "ctrBlocks k counter (b # bs) =
     xorBytes b (toSlice (cipher k (asBlock counter))) # ctrBlocks k (addOneToByteSlice counter) bs"

section \<open>The round transforms are inverse to each other\<close>

lemma and_one_neq0: "((x::byte) AND 1 \<noteq> 0) = odd x"
  by (simp add: and_one_eq odd_iff_mod_2_eq_one)

lemma gmul_loop_Suc:
  "gmul_loop (Suc n) a b p = gmul_loop n (xtime a) (drop_bit 1 b) (if odd b then p XOR a else p)"
  by (simp add: Let_def xtime_def and_one_neq0)

lemma gmul_loop_xor:
  "gmul_loop n a (x XOR y) (p XOR q) = gmul_loop n a x p XOR gmul_loop n a y q"
proof (induction n arbitrary: a x y p q)
  case 0
  show ?case by simp
next
  case (Suc n)
  have acc: "(if odd (x XOR y) then (p XOR q) XOR a else p XOR q) =
             (if odd x then p XOR a else p) XOR (if odd y then q XOR a else q)"
    by (simp add: even_xor_iff ac_simps)
  have "gmul_loop (Suc n) a (x XOR y) (p XOR q) =
        gmul_loop n (xtime a) (drop_bit 1 x XOR drop_bit 1 y)
          ((if odd x then p XOR a else p) XOR (if odd y then q XOR a else q))"
    unfolding gmul_loop_Suc acc by simp
  also have "\<dots> = gmul_loop n (xtime a) (drop_bit 1 x) (if odd x then p XOR a else p) XOR
                 gmul_loop n (xtime a) (drop_bit 1 y) (if odd y then q XOR a else q)"
    by (rule Suc.IH)
  finally show ?case unfolding gmul_loop_Suc .
qed

lemma gmul_xor: "gmul c (x XOR y) = gmul c x XOR gmul c y"
  using gmul_loop_xor [of 8 c x y 0 0] by (simp add: gmul_def)

lemma gmul_zero: "gmul c 0 = 0"
  using gmul_xor [of c 0 0] by simp

lemma byte_decomp:
  "(x::byte) = (x AND 1) XOR (x AND 2) XOR (x AND 4) XOR (x AND 8) XOR (x AND 16) XOR (x AND 32) XOR (x AND 64) XOR (x AND 128)"
  apply (rule bit_word_eqI)
  apply (auto simp add: bit_simps less_Suc_eq eval_nat_numeral)
  done


lemma and_pow2: "(x::byte) AND 2 ^ n = (if bit x n then 2 ^ n else 0)"
  by (rule bit_word_eqI) (auto simp add: bit_simps)

lemma and_pow2_cases:
  fixes x :: byte
  shows "x AND 1 = 0 \<or> x AND 1 = 1" "x AND 2 = 0 \<or> x AND 2 = 2" "x AND 4 = 0 \<or> x AND 4 = 4"
    "x AND 8 = 0 \<or> x AND 8 = 8" "x AND 16 = 0 \<or> x AND 16 = 16" "x AND 32 = 0 \<or> x AND 32 = 32"
    "x AND 64 = 0 \<or> x AND 64 = 64" "x AND 128 = 0 \<or> x AND 128 = 128"
  using and_pow2 [of x 0] and_pow2 [of x 1] and_pow2 [of x 2] and_pow2 [of x 3]
    and_pow2 [of x 4] and_pow2 [of x 5] and_pow2 [of x 6] and_pow2 [of x 7]
  by (simp_all split: if_splits)

lemma linear_byte:
  fixes h :: "byte \<Rightarrow> byte"
  assumes lin: "\<And>a b. h (a XOR b) = h a XOR h b"
    and b: "h 1 = g 1" "h 2 = g 2" "h 4 = g 4" "h 8 = g 8" "h 16 = g 16" "h 32 = g 32" "h 64 = g 64" "h 128 = g 128"
    and z: "g 0 = 0"
  shows "h x = g (x AND 1) XOR g (x AND 2) XOR g (x AND 4) XOR g (x AND 8) XOR
               g (x AND 16) XOR g (x AND 32) XOR g (x AND 64) XOR g (x AND 128)"
proof -
  have h0: "h 0 = 0" using lin [of 0 0] by simp
  have e0: "h (x AND 1) = g (x AND 1)"
    using and_pow2_cases(1) [of x] b(1) h0 z by auto
  have e1: "h (x AND 2) = g (x AND 2)"
    using and_pow2_cases(2) [of x] b(2) h0 z by auto
  have e2: "h (x AND 4) = g (x AND 4)"
    using and_pow2_cases(3) [of x] b(3) h0 z by auto
  have e3: "h (x AND 8) = g (x AND 8)"
    using and_pow2_cases(4) [of x] b(4) h0 z by auto
  have e4: "h (x AND 16) = g (x AND 16)"
    using and_pow2_cases(5) [of x] b(5) h0 z by auto
  have e5: "h (x AND 32) = g (x AND 32)"
    using and_pow2_cases(6) [of x] b(6) h0 z by auto
  have e6: "h (x AND 64) = g (x AND 64)"
    using and_pow2_cases(7) [of x] b(7) h0 z by auto
  have e7: "h (x AND 128) = g (x AND 128)"
    using and_pow2_cases(8) [of x] b(8) h0 z by auto
  have "h x = h ((x AND 1) XOR (x AND 2) XOR (x AND 4) XOR (x AND 8) XOR (x AND 16) XOR
                 (x AND 32) XOR (x AND 64) XOR (x AND 128))"
    using byte_decomp [of x] by simp
  also have "\<dots> = h (x AND 1) XOR h (x AND 2) XOR h (x AND 4) XOR h (x AND 8) XOR
                  h (x AND 16) XOR h (x AND 32) XOR h (x AND 64) XOR h (x AND 128)"
    by (simp only: lin)
  finally show ?thesis by (simp only: e0 e1 e2 e3 e4 e5 e6 e7)
qed

lemma linear_byte_id:
  fixes h :: "byte \<Rightarrow> byte"
  assumes "\<And>a b. h (a XOR b) = h a XOR h b"
    and "h 1 = 1" "h 2 = 2" "h 4 = 4" "h 8 = 8" "h 16 = 16" "h 32 = 32" "h 64 = 64" "h 128 = 128"
  shows "h x = x"
  using linear_byte [of h "\<lambda>x. x" x] assms byte_decomp [of x] by simp

lemma linear_byte_zero:
  fixes h :: "byte \<Rightarrow> byte"
  assumes "\<And>a b. h (a XOR b) = h a XOR h b"
    and "h 1 = 0" "h 2 = 0" "h 4 = 0" "h 8 = 0" "h 16 = 0" "h 32 = 0" "h 64 = 0" "h 128 = 0"
  shows "h x = 0"
  using linear_byte [of h "\<lambda>x. 0" x] assms by simp

lemma gmul_facts:
  "gmul 2 1 = 2" "gmul 2 2 = 4" "gmul 2 4 = 8" "gmul 2 8 = 16"
  "gmul 2 9 = 18" "gmul 2 11 = 22" "gmul 2 13 = 26" "gmul 2 14 = 28"
  "gmul 2 16 = 32" "gmul 2 18 = 36" "gmul 2 22 = 44" "gmul 2 26 = 52"
  "gmul 2 28 = 56" "gmul 2 32 = 64" "gmul 2 36 = 72" "gmul 2 44 = 88"
  "gmul 2 52 = 104" "gmul 2 56 = 112" "gmul 2 59 = 118" "gmul 2 64 = 128"
  "gmul 2 65 = 130" "gmul 2 72 = 144" "gmul 2 88 = 176" "gmul 2 104 = 208"
  "gmul 2 109 = 218" "gmul 2 112 = 224" "gmul 2 118 = 236" "gmul 2 123 = 246"
  "gmul 2 128 = 27" "gmul 2 144 = 59" "gmul 2 173 = 65" "gmul 2 176 = 123"
  "gmul 2 187 = 109" "gmul 2 208 = 187" "gmul 2 218 = 175" "gmul 2 219 = 173"
  "gmul 2 224 = 219" "gmul 2 236 = 195" "gmul 2 246 = 247" "gmul 2 247 = 245"
  "gmul 3 1 = 3" "gmul 3 2 = 6" "gmul 3 4 = 12" "gmul 3 8 = 24"
  "gmul 3 9 = 27" "gmul 3 11 = 29" "gmul 3 13 = 23" "gmul 3 14 = 18"
  "gmul 3 16 = 48" "gmul 3 18 = 54" "gmul 3 22 = 58" "gmul 3 26 = 46"
  "gmul 3 28 = 36" "gmul 3 32 = 96" "gmul 3 36 = 108" "gmul 3 44 = 116"
  "gmul 3 52 = 92" "gmul 3 56 = 72" "gmul 3 59 = 77" "gmul 3 64 = 192"
  "gmul 3 65 = 195" "gmul 3 72 = 216" "gmul 3 88 = 232" "gmul 3 104 = 184"
  "gmul 3 109 = 183" "gmul 3 112 = 144" "gmul 3 118 = 154" "gmul 3 123 = 141"
  "gmul 3 128 = 155" "gmul 3 144 = 171" "gmul 3 173 = 236" "gmul 3 176 = 203"
  "gmul 3 187 = 214" "gmul 3 208 = 107" "gmul 3 218 = 117" "gmul 3 219 = 118"
  "gmul 3 224 = 59" "gmul 3 236 = 47" "gmul 3 246 = 1" "gmul 3 247 = 2"
  "gmul 9 1 = 9" "gmul 9 2 = 18" "gmul 9 3 = 27" "gmul 9 4 = 36"
  "gmul 9 6 = 54" "gmul 9 8 = 72" "gmul 9 12 = 108" "gmul 9 16 = 144"
  "gmul 9 24 = 216" "gmul 9 27 = 195" "gmul 9 32 = 59" "gmul 9 48 = 171"
  "gmul 9 64 = 118" "gmul 9 96 = 77" "gmul 9 128 = 236" "gmul 9 155 = 47"
  "gmul 9 192 = 154" "gmul 11 1 = 11" "gmul 11 2 = 22" "gmul 11 3 = 29"
  "gmul 11 4 = 44" "gmul 11 6 = 58" "gmul 11 8 = 88" "gmul 11 12 = 116"
  "gmul 11 16 = 176" "gmul 11 24 = 232" "gmul 11 27 = 245" "gmul 11 32 = 123"
  "gmul 11 48 = 203" "gmul 11 64 = 246" "gmul 11 96 = 141" "gmul 11 128 = 247"
  "gmul 11 155 = 2" "gmul 11 192 = 1" "gmul 13 1 = 13" "gmul 13 2 = 26"
  "gmul 13 3 = 23" "gmul 13 4 = 52" "gmul 13 6 = 46" "gmul 13 8 = 104"
  "gmul 13 12 = 92" "gmul 13 16 = 208" "gmul 13 24 = 184" "gmul 13 27 = 175"
  "gmul 13 32 = 187" "gmul 13 48 = 107" "gmul 13 64 = 109" "gmul 13 96 = 214"
  "gmul 13 128 = 218" "gmul 13 155 = 117" "gmul 13 192 = 183" "gmul 14 1 = 14"
  "gmul 14 2 = 28" "gmul 14 3 = 18" "gmul 14 4 = 56" "gmul 14 6 = 36"
  "gmul 14 8 = 112" "gmul 14 12 = 72" "gmul 14 16 = 224" "gmul 14 24 = 144"
  "gmul 14 27 = 130" "gmul 14 32 = 219" "gmul 14 48 = 59" "gmul 14 64 = 173"
  "gmul 14 96 = 118" "gmul 14 128 = 65" "gmul 14 155 = 195" "gmul 14 192 = 236"
  by code_simp+

lemma invmix_mix_d0: "gmul 14 (gmul 2 x) XOR gmul 11 x XOR gmul 13 x XOR gmul 9 (gmul 3 x) = x"
proof (rule linear_byte_id [where h = "\<lambda>x. gmul 14 (gmul 2 x) XOR gmul 11 x XOR gmul 13 x XOR gmul 9 (gmul 3 x)"])
  show "\<And>a b. gmul 14 (gmul 2 ((a XOR b))) XOR gmul 11 ((a XOR b)) XOR gmul 13 ((a XOR b)) XOR gmul 9 (gmul 3 ((a XOR b))) = (gmul 14 (gmul 2 a) XOR gmul 11 a XOR gmul 13 a XOR gmul 9 (gmul 3 a)) XOR (gmul 14 (gmul 2 b) XOR gmul 11 b XOR gmul 13 b XOR gmul 9 (gmul 3 b))"
    by (simp add: gmul_xor ac_simps)
qed (simp_all add: gmul_facts)

lemma invmix_mix_d1: "gmul 14 (gmul 3 x) XOR gmul 11 (gmul 2 x) XOR gmul 13 x XOR gmul 9 x = 0"
proof (rule linear_byte_zero [where h = "\<lambda>x. gmul 14 (gmul 3 x) XOR gmul 11 (gmul 2 x) XOR gmul 13 x XOR gmul 9 x"])
  show "\<And>a b. gmul 14 (gmul 3 ((a XOR b))) XOR gmul 11 (gmul 2 ((a XOR b))) XOR gmul 13 ((a XOR b)) XOR gmul 9 ((a XOR b)) = (gmul 14 (gmul 3 a) XOR gmul 11 (gmul 2 a) XOR gmul 13 a XOR gmul 9 a) XOR (gmul 14 (gmul 3 b) XOR gmul 11 (gmul 2 b) XOR gmul 13 b XOR gmul 9 b)"
    by (simp add: gmul_xor ac_simps)
qed (simp_all add: gmul_facts)

lemma invmix_mix_d2: "gmul 14 x XOR gmul 11 (gmul 3 x) XOR gmul 13 (gmul 2 x) XOR gmul 9 x = 0"
proof (rule linear_byte_zero [where h = "\<lambda>x. gmul 14 x XOR gmul 11 (gmul 3 x) XOR gmul 13 (gmul 2 x) XOR gmul 9 x"])
  show "\<And>a b. gmul 14 ((a XOR b)) XOR gmul 11 (gmul 3 ((a XOR b))) XOR gmul 13 (gmul 2 ((a XOR b))) XOR gmul 9 ((a XOR b)) = (gmul 14 a XOR gmul 11 (gmul 3 a) XOR gmul 13 (gmul 2 a) XOR gmul 9 a) XOR (gmul 14 b XOR gmul 11 (gmul 3 b) XOR gmul 13 (gmul 2 b) XOR gmul 9 b)"
    by (simp add: gmul_xor ac_simps)
qed (simp_all add: gmul_facts)

lemma invmix_mix_d3: "gmul 14 x XOR gmul 11 x XOR gmul 13 (gmul 3 x) XOR gmul 9 (gmul 2 x) = 0"
proof (rule linear_byte_zero [where h = "\<lambda>x. gmul 14 x XOR gmul 11 x XOR gmul 13 (gmul 3 x) XOR gmul 9 (gmul 2 x)"])
  show "\<And>a b. gmul 14 ((a XOR b)) XOR gmul 11 ((a XOR b)) XOR gmul 13 (gmul 3 ((a XOR b))) XOR gmul 9 (gmul 2 ((a XOR b))) = (gmul 14 a XOR gmul 11 a XOR gmul 13 (gmul 3 a) XOR gmul 9 (gmul 2 a)) XOR (gmul 14 b XOR gmul 11 b XOR gmul 13 (gmul 3 b) XOR gmul 9 (gmul 2 b))"
    by (simp add: gmul_xor ac_simps)
qed (simp_all add: gmul_facts)

lemma mix_invmix_d0: "gmul 2 (gmul 14 x) XOR gmul 3 (gmul 9 x) XOR gmul 13 x XOR gmul 11 x = x"
proof (rule linear_byte_id [where h = "\<lambda>x. gmul 2 (gmul 14 x) XOR gmul 3 (gmul 9 x) XOR gmul 13 x XOR gmul 11 x"])
  show "\<And>a b. gmul 2 (gmul 14 ((a XOR b))) XOR gmul 3 (gmul 9 ((a XOR b))) XOR gmul 13 ((a XOR b)) XOR gmul 11 ((a XOR b)) = (gmul 2 (gmul 14 a) XOR gmul 3 (gmul 9 a) XOR gmul 13 a XOR gmul 11 a) XOR (gmul 2 (gmul 14 b) XOR gmul 3 (gmul 9 b) XOR gmul 13 b XOR gmul 11 b)"
    by (simp add: gmul_xor ac_simps)
qed (simp_all add: gmul_facts)

lemma mix_invmix_d1: "gmul 2 (gmul 11 x) XOR gmul 3 (gmul 14 x) XOR gmul 9 x XOR gmul 13 x = 0"
proof (rule linear_byte_zero [where h = "\<lambda>x. gmul 2 (gmul 11 x) XOR gmul 3 (gmul 14 x) XOR gmul 9 x XOR gmul 13 x"])
  show "\<And>a b. gmul 2 (gmul 11 ((a XOR b))) XOR gmul 3 (gmul 14 ((a XOR b))) XOR gmul 9 ((a XOR b)) XOR gmul 13 ((a XOR b)) = (gmul 2 (gmul 11 a) XOR gmul 3 (gmul 14 a) XOR gmul 9 a XOR gmul 13 a) XOR (gmul 2 (gmul 11 b) XOR gmul 3 (gmul 14 b) XOR gmul 9 b XOR gmul 13 b)"
    by (simp add: gmul_xor ac_simps)
qed (simp_all add: gmul_facts)

lemma mix_invmix_d2: "gmul 2 (gmul 13 x) XOR gmul 3 (gmul 11 x) XOR gmul 14 x XOR gmul 9 x = 0"
proof (rule linear_byte_zero [where h = "\<lambda>x. gmul 2 (gmul 13 x) XOR gmul 3 (gmul 11 x) XOR gmul 14 x XOR gmul 9 x"])
  show "\<And>a b. gmul 2 (gmul 13 ((a XOR b))) XOR gmul 3 (gmul 11 ((a XOR b))) XOR gmul 14 ((a XOR b)) XOR gmul 9 ((a XOR b)) = (gmul 2 (gmul 13 a) XOR gmul 3 (gmul 11 a) XOR gmul 14 a XOR gmul 9 a) XOR (gmul 2 (gmul 13 b) XOR gmul 3 (gmul 11 b) XOR gmul 14 b XOR gmul 9 b)"
    by (simp add: gmul_xor ac_simps)
qed (simp_all add: gmul_facts)

lemma mix_invmix_d3: "gmul 2 (gmul 9 x) XOR gmul 3 (gmul 13 x) XOR gmul 11 x XOR gmul 14 x = 0"
proof (rule linear_byte_zero [where h = "\<lambda>x. gmul 2 (gmul 9 x) XOR gmul 3 (gmul 13 x) XOR gmul 11 x XOR gmul 14 x"])
  show "\<And>a b. gmul 2 (gmul 9 ((a XOR b))) XOR gmul 3 (gmul 13 ((a XOR b))) XOR gmul 11 ((a XOR b)) XOR gmul 14 ((a XOR b)) = (gmul 2 (gmul 9 a) XOR gmul 3 (gmul 13 a) XOR gmul 11 a XOR gmul 14 a) XOR (gmul 2 (gmul 9 b) XOR gmul 3 (gmul 13 b) XOR gmul 11 b XOR gmul 14 b)"
    by (simp add: gmul_xor ac_simps)
qed (simp_all add: gmul_facts)

lemma invMixColumn_mixColumn:
  "(case mixColumn s0 s1 s2 s3 of (a, b, c, d) \<Rightarrow> invMixColumn a b c d) = (s0, s1, s2, s3)"
proof -
  have r0: "gmul 14 ((gmul 2 s0 XOR gmul 3 s1 XOR s2 XOR s3)) XOR gmul 11 ((s0 XOR gmul 2 s1 XOR gmul 3 s2 XOR s3)) XOR gmul 13 ((s0 XOR s1 XOR gmul 2 s2 XOR gmul 3 s3)) XOR gmul 9 ((gmul 3 s0 XOR s1 XOR s2 XOR gmul 2 s3)) =
      (gmul 14 (gmul 2 s0) XOR gmul 11 s0 XOR gmul 13 s0 XOR gmul 9 (gmul 3 s0)) XOR
      (gmul 14 (gmul 3 s1) XOR gmul 11 (gmul 2 s1) XOR gmul 13 s1 XOR gmul 9 s1) XOR
      (gmul 14 s2 XOR gmul 11 (gmul 3 s2) XOR gmul 13 (gmul 2 s2) XOR gmul 9 s2) XOR
      (gmul 14 s3 XOR gmul 11 s3 XOR gmul 13 (gmul 3 s3) XOR gmul 9 (gmul 2 s3))"
    by (simp add: gmul_xor ac_simps)
  have c0: "gmul 14 ((gmul 2 s0 XOR gmul 3 s1 XOR s2 XOR s3)) XOR gmul 11 ((s0 XOR gmul 2 s1 XOR gmul 3 s2 XOR s3)) XOR gmul 13 ((s0 XOR s1 XOR gmul 2 s2 XOR gmul 3 s3)) XOR gmul 9 ((gmul 3 s0 XOR s1 XOR s2 XOR gmul 2 s3)) = s0"
    unfolding r0 by (simp add: invmix_mix_d0 invmix_mix_d1 invmix_mix_d2 invmix_mix_d3)
  have r1: "gmul 9 ((gmul 2 s0 XOR gmul 3 s1 XOR s2 XOR s3)) XOR gmul 14 ((s0 XOR gmul 2 s1 XOR gmul 3 s2 XOR s3)) XOR gmul 11 ((s0 XOR s1 XOR gmul 2 s2 XOR gmul 3 s3)) XOR gmul 13 ((gmul 3 s0 XOR s1 XOR s2 XOR gmul 2 s3)) =
      (gmul 14 s0 XOR gmul 11 s0 XOR gmul 13 (gmul 3 s0) XOR gmul 9 (gmul 2 s0)) XOR
      (gmul 14 (gmul 2 s1) XOR gmul 11 s1 XOR gmul 13 s1 XOR gmul 9 (gmul 3 s1)) XOR
      (gmul 14 (gmul 3 s2) XOR gmul 11 (gmul 2 s2) XOR gmul 13 s2 XOR gmul 9 s2) XOR
      (gmul 14 s3 XOR gmul 11 (gmul 3 s3) XOR gmul 13 (gmul 2 s3) XOR gmul 9 s3)"
    by (simp add: gmul_xor ac_simps)
  have c1: "gmul 9 ((gmul 2 s0 XOR gmul 3 s1 XOR s2 XOR s3)) XOR gmul 14 ((s0 XOR gmul 2 s1 XOR gmul 3 s2 XOR s3)) XOR gmul 11 ((s0 XOR s1 XOR gmul 2 s2 XOR gmul 3 s3)) XOR gmul 13 ((gmul 3 s0 XOR s1 XOR s2 XOR gmul 2 s3)) = s1"
    unfolding r1 by (simp add: invmix_mix_d0 invmix_mix_d1 invmix_mix_d2 invmix_mix_d3)
  have r2: "gmul 13 ((gmul 2 s0 XOR gmul 3 s1 XOR s2 XOR s3)) XOR gmul 9 ((s0 XOR gmul 2 s1 XOR gmul 3 s2 XOR s3)) XOR gmul 14 ((s0 XOR s1 XOR gmul 2 s2 XOR gmul 3 s3)) XOR gmul 11 ((gmul 3 s0 XOR s1 XOR s2 XOR gmul 2 s3)) =
      (gmul 14 s0 XOR gmul 11 (gmul 3 s0) XOR gmul 13 (gmul 2 s0) XOR gmul 9 s0) XOR
      (gmul 14 s1 XOR gmul 11 s1 XOR gmul 13 (gmul 3 s1) XOR gmul 9 (gmul 2 s1)) XOR
      (gmul 14 (gmul 2 s2) XOR gmul 11 s2 XOR gmul 13 s2 XOR gmul 9 (gmul 3 s2)) XOR
      (gmul 14 (gmul 3 s3) XOR gmul 11 (gmul 2 s3) XOR gmul 13 s3 XOR gmul 9 s3)"
    by (simp add: gmul_xor ac_simps)
  have c2: "gmul 13 ((gmul 2 s0 XOR gmul 3 s1 XOR s2 XOR s3)) XOR gmul 9 ((s0 XOR gmul 2 s1 XOR gmul 3 s2 XOR s3)) XOR gmul 14 ((s0 XOR s1 XOR gmul 2 s2 XOR gmul 3 s3)) XOR gmul 11 ((gmul 3 s0 XOR s1 XOR s2 XOR gmul 2 s3)) = s2"
    unfolding r2 by (simp add: invmix_mix_d0 invmix_mix_d1 invmix_mix_d2 invmix_mix_d3)
  have r3: "gmul 11 ((gmul 2 s0 XOR gmul 3 s1 XOR s2 XOR s3)) XOR gmul 13 ((s0 XOR gmul 2 s1 XOR gmul 3 s2 XOR s3)) XOR gmul 9 ((s0 XOR s1 XOR gmul 2 s2 XOR gmul 3 s3)) XOR gmul 14 ((gmul 3 s0 XOR s1 XOR s2 XOR gmul 2 s3)) =
      (gmul 14 (gmul 3 s0) XOR gmul 11 (gmul 2 s0) XOR gmul 13 s0 XOR gmul 9 s0) XOR
      (gmul 14 s1 XOR gmul 11 (gmul 3 s1) XOR gmul 13 (gmul 2 s1) XOR gmul 9 s1) XOR
      (gmul 14 s2 XOR gmul 11 s2 XOR gmul 13 (gmul 3 s2) XOR gmul 9 (gmul 2 s2)) XOR
      (gmul 14 (gmul 2 s3) XOR gmul 11 s3 XOR gmul 13 s3 XOR gmul 9 (gmul 3 s3))"
    by (simp add: gmul_xor ac_simps)
  have c3: "gmul 11 ((gmul 2 s0 XOR gmul 3 s1 XOR s2 XOR s3)) XOR gmul 13 ((s0 XOR gmul 2 s1 XOR gmul 3 s2 XOR s3)) XOR gmul 9 ((s0 XOR s1 XOR gmul 2 s2 XOR gmul 3 s3)) XOR gmul 14 ((gmul 3 s0 XOR s1 XOR s2 XOR gmul 2 s3)) = s3"
    unfolding r3 by (simp add: invmix_mix_d0 invmix_mix_d1 invmix_mix_d2 invmix_mix_d3)
  show ?thesis
    unfolding mixColumn_def invMixColumn_def prod.case using c0 c1 c2 c3 by simp
qed

lemma mixColumn_invMixColumn:
  "(case invMixColumn s0 s1 s2 s3 of (a, b, c, d) \<Rightarrow> mixColumn a b c d) = (s0, s1, s2, s3)"
proof -
  have r0: "gmul 2 ((gmul 14 s0 XOR gmul 11 s1 XOR gmul 13 s2 XOR gmul 9 s3)) XOR gmul 3 ((gmul 9 s0 XOR gmul 14 s1 XOR gmul 11 s2 XOR gmul 13 s3)) XOR (gmul 13 s0 XOR gmul 9 s1 XOR gmul 14 s2 XOR gmul 11 s3) XOR (gmul 11 s0 XOR gmul 13 s1 XOR gmul 9 s2 XOR gmul 14 s3) =
      (gmul 2 (gmul 14 s0) XOR gmul 3 (gmul 9 s0) XOR gmul 13 s0 XOR gmul 11 s0) XOR
      (gmul 2 (gmul 11 s1) XOR gmul 3 (gmul 14 s1) XOR gmul 9 s1 XOR gmul 13 s1) XOR
      (gmul 2 (gmul 13 s2) XOR gmul 3 (gmul 11 s2) XOR gmul 14 s2 XOR gmul 9 s2) XOR
      (gmul 2 (gmul 9 s3) XOR gmul 3 (gmul 13 s3) XOR gmul 11 s3 XOR gmul 14 s3)"
    by (simp add: gmul_xor ac_simps)
  have c0: "gmul 2 ((gmul 14 s0 XOR gmul 11 s1 XOR gmul 13 s2 XOR gmul 9 s3)) XOR gmul 3 ((gmul 9 s0 XOR gmul 14 s1 XOR gmul 11 s2 XOR gmul 13 s3)) XOR (gmul 13 s0 XOR gmul 9 s1 XOR gmul 14 s2 XOR gmul 11 s3) XOR (gmul 11 s0 XOR gmul 13 s1 XOR gmul 9 s2 XOR gmul 14 s3) = s0"
    unfolding r0 by (simp add: mix_invmix_d0 mix_invmix_d1 mix_invmix_d2 mix_invmix_d3)
  have r1: "(gmul 14 s0 XOR gmul 11 s1 XOR gmul 13 s2 XOR gmul 9 s3) XOR gmul 2 ((gmul 9 s0 XOR gmul 14 s1 XOR gmul 11 s2 XOR gmul 13 s3)) XOR gmul 3 ((gmul 13 s0 XOR gmul 9 s1 XOR gmul 14 s2 XOR gmul 11 s3)) XOR (gmul 11 s0 XOR gmul 13 s1 XOR gmul 9 s2 XOR gmul 14 s3) =
      (gmul 2 (gmul 9 s0) XOR gmul 3 (gmul 13 s0) XOR gmul 11 s0 XOR gmul 14 s0) XOR
      (gmul 2 (gmul 14 s1) XOR gmul 3 (gmul 9 s1) XOR gmul 13 s1 XOR gmul 11 s1) XOR
      (gmul 2 (gmul 11 s2) XOR gmul 3 (gmul 14 s2) XOR gmul 9 s2 XOR gmul 13 s2) XOR
      (gmul 2 (gmul 13 s3) XOR gmul 3 (gmul 11 s3) XOR gmul 14 s3 XOR gmul 9 s3)"
    by (simp add: gmul_xor ac_simps)
  have c1: "(gmul 14 s0 XOR gmul 11 s1 XOR gmul 13 s2 XOR gmul 9 s3) XOR gmul 2 ((gmul 9 s0 XOR gmul 14 s1 XOR gmul 11 s2 XOR gmul 13 s3)) XOR gmul 3 ((gmul 13 s0 XOR gmul 9 s1 XOR gmul 14 s2 XOR gmul 11 s3)) XOR (gmul 11 s0 XOR gmul 13 s1 XOR gmul 9 s2 XOR gmul 14 s3) = s1"
    unfolding r1 by (simp add: mix_invmix_d0 mix_invmix_d1 mix_invmix_d2 mix_invmix_d3)
  have r2: "(gmul 14 s0 XOR gmul 11 s1 XOR gmul 13 s2 XOR gmul 9 s3) XOR (gmul 9 s0 XOR gmul 14 s1 XOR gmul 11 s2 XOR gmul 13 s3) XOR gmul 2 ((gmul 13 s0 XOR gmul 9 s1 XOR gmul 14 s2 XOR gmul 11 s3)) XOR gmul 3 ((gmul 11 s0 XOR gmul 13 s1 XOR gmul 9 s2 XOR gmul 14 s3)) =
      (gmul 2 (gmul 13 s0) XOR gmul 3 (gmul 11 s0) XOR gmul 14 s0 XOR gmul 9 s0) XOR
      (gmul 2 (gmul 9 s1) XOR gmul 3 (gmul 13 s1) XOR gmul 11 s1 XOR gmul 14 s1) XOR
      (gmul 2 (gmul 14 s2) XOR gmul 3 (gmul 9 s2) XOR gmul 13 s2 XOR gmul 11 s2) XOR
      (gmul 2 (gmul 11 s3) XOR gmul 3 (gmul 14 s3) XOR gmul 9 s3 XOR gmul 13 s3)"
    by (simp add: gmul_xor ac_simps)
  have c2: "(gmul 14 s0 XOR gmul 11 s1 XOR gmul 13 s2 XOR gmul 9 s3) XOR (gmul 9 s0 XOR gmul 14 s1 XOR gmul 11 s2 XOR gmul 13 s3) XOR gmul 2 ((gmul 13 s0 XOR gmul 9 s1 XOR gmul 14 s2 XOR gmul 11 s3)) XOR gmul 3 ((gmul 11 s0 XOR gmul 13 s1 XOR gmul 9 s2 XOR gmul 14 s3)) = s2"
    unfolding r2 by (simp add: mix_invmix_d0 mix_invmix_d1 mix_invmix_d2 mix_invmix_d3)
  have r3: "gmul 3 ((gmul 14 s0 XOR gmul 11 s1 XOR gmul 13 s2 XOR gmul 9 s3)) XOR (gmul 9 s0 XOR gmul 14 s1 XOR gmul 11 s2 XOR gmul 13 s3) XOR (gmul 13 s0 XOR gmul 9 s1 XOR gmul 14 s2 XOR gmul 11 s3) XOR gmul 2 ((gmul 11 s0 XOR gmul 13 s1 XOR gmul 9 s2 XOR gmul 14 s3)) =
      (gmul 2 (gmul 11 s0) XOR gmul 3 (gmul 14 s0) XOR gmul 9 s0 XOR gmul 13 s0) XOR
      (gmul 2 (gmul 13 s1) XOR gmul 3 (gmul 11 s1) XOR gmul 14 s1 XOR gmul 9 s1) XOR
      (gmul 2 (gmul 9 s2) XOR gmul 3 (gmul 13 s2) XOR gmul 11 s2 XOR gmul 14 s2) XOR
      (gmul 2 (gmul 14 s3) XOR gmul 3 (gmul 9 s3) XOR gmul 13 s3 XOR gmul 11 s3)"
    by (simp add: gmul_xor ac_simps)
  have c3: "gmul 3 ((gmul 14 s0 XOR gmul 11 s1 XOR gmul 13 s2 XOR gmul 9 s3)) XOR (gmul 9 s0 XOR gmul 14 s1 XOR gmul 11 s2 XOR gmul 13 s3) XOR (gmul 13 s0 XOR gmul 9 s1 XOR gmul 14 s2 XOR gmul 11 s3) XOR gmul 2 ((gmul 11 s0 XOR gmul 13 s1 XOR gmul 9 s2 XOR gmul 14 s3)) = s3"
    unfolding r3 by (simp add: mix_invmix_d0 mix_invmix_d1 mix_invmix_d2 mix_invmix_d3)
  show ?thesis
    unfolding invMixColumn_def mixColumn_def prod.case using c0 c1 c2 c3 by simp
qed

lemma invMixColumns_mixColumns [simp]: "invMixColumns (mixColumns m) = m"
proof -
  obtain a0 a1 a2 a3 b0 b1 b2 b3 c0 c1 c2 c3 d0 d1 d2 d3 where
    m: "m = M4 (W4 a0 a1 a2 a3) (W4 b0 b1 b2 b3) (W4 c0 c1 c2 c3) (W4 d0 d1 d2 d3)"
    by (metis matrix.exhaust word4.exhaust)
  show ?thesis
    using invMixColumn_mixColumn [of a0 b0 c0 d0] invMixColumn_mixColumn [of a1 b1 c1 d1]
      invMixColumn_mixColumn [of a2 b2 c2 d2] invMixColumn_mixColumn [of a3 b3 c3 d3]
    by (simp add: m mixColumns_def invMixColumns_def split: prod.splits)
qed

lemma mixColumns_invMixColumns [simp]: "mixColumns (invMixColumns m) = m"
proof -
  obtain a0 a1 a2 a3 b0 b1 b2 b3 c0 c1 c2 c3 d0 d1 d2 d3 where
    m: "m = M4 (W4 a0 a1 a2 a3) (W4 b0 b1 b2 b3) (W4 c0 c1 c2 c3) (W4 d0 d1 d2 d3)"
    by (metis matrix.exhaust word4.exhaust)
  show ?thesis
    using mixColumn_invMixColumn [of a0 b0 c0 d0] mixColumn_invMixColumn [of a1 b1 c1 d1]
      mixColumn_invMixColumn [of a2 b2 c2 d2] mixColumn_invMixColumn [of a3 b3 c3 d3]
    by (simp add: m mixColumns_def invMixColumns_def split: prod.splits)
qed

lemma sBox_inverse: "\<forall>x::byte. lookup invSBox (lookup sBox x) = x"
  by code_simp

lemma invSBox_inverse: "\<forall>x::byte. lookup sBox (lookup invSBox x) = x"
  by code_simp

lemma invSubMatrix_subMatrix [simp]: "invSubMatrix (subMatrix m) = m"
proof -
  obtain a0 a1 a2 a3 b0 b1 b2 b3 c0 c1 c2 c3 d0 d1 d2 d3 where
    m: "m = M4 (W4 a0 a1 a2 a3) (W4 b0 b1 b2 b3) (W4 c0 c1 c2 c3) (W4 d0 d1 d2 d3)"
    by (metis matrix.exhaust word4.exhaust)
  show ?thesis by (simp add: m sBox_inverse)
qed

lemma subMatrix_invSubMatrix [simp]: "subMatrix (invSubMatrix m) = m"
proof -
  obtain a0 a1 a2 a3 b0 b1 b2 b3 c0 c1 c2 c3 d0 d1 d2 d3 where
    m: "m = M4 (W4 a0 a1 a2 a3) (W4 b0 b1 b2 b3) (W4 c0 c1 c2 c3) (W4 d0 d1 d2 d3)"
    by (metis matrix.exhaust word4.exhaust)
  show ?thesis by (simp add: m invSBox_inverse)
qed

lemma invShiftRows_shiftRows [simp]: "invShiftRows (shiftRows m) = m"
proof -
  obtain a0 a1 a2 a3 b0 b1 b2 b3 c0 c1 c2 c3 d0 d1 d2 d3 where
    m: "m = M4 (W4 a0 a1 a2 a3) (W4 b0 b1 b2 b3) (W4 c0 c1 c2 c3) (W4 d0 d1 d2 d3)"
    by (metis matrix.exhaust word4.exhaust)
  show ?thesis by (simp add: m)
qed

lemma shiftRows_invShiftRows [simp]: "shiftRows (invShiftRows m) = m"
proof -
  obtain a0 a1 a2 a3 b0 b1 b2 b3 c0 c1 c2 c3 d0 d1 d2 d3 where
    m: "m = M4 (W4 a0 a1 a2 a3) (W4 b0 b1 b2 b3) (W4 c0 c1 c2 c3) (W4 d0 d1 d2 d3)"
    by (metis matrix.exhaust word4.exhaust)
  show ?thesis by (simp add: m)
qed

lemma xor_xor [simp]: "xor (xor a k) k = a"
  by (cases a; cases k) (simp add: xor.assoc)

lemma addRoundKey_addRoundKey [simp]: "addRoundKey (addRoundKey m k) k = m"
  by (cases m; cases k) (simp add: addRoundKey_def)

lemma convertMatrixToArray_inverse [simp]: "convertArrayToMatrix (convertMatrixToArray m) = m"
proof -
  obtain a0 a1 a2 a3 b0 b1 b2 b3 c0 c1 c2 c3 d0 d1 d2 d3 where
    m: "m = M4 (W4 a0 a1 a2 a3) (W4 b0 b1 b2 b3) (W4 c0 c1 c2 c3) (W4 d0 d1 d2 d3)"
    by (metis matrix.exhaust word4.exhaust)
  show ?thesis by (simp add: m)
qed

lemma convertArrayToMatrix_inverse [simp]: "convertMatrixToArray (convertArrayToMatrix b) = b"
  by (cases b) simp

section \<open>The block functions on a well-formed cipher object\<close>

lemma toArray16_toSlice [simp]: "toArray16 (toSlice b) = Inr b"
  by (cases b) (simp add: toArray16_def)

lemma length_toSlice [simp]: "length (toSlice b) = 16"
  by (cases b) simp

lemma expandRoundKey_ok:
  "1 \<le> r \<Longrightarrow> r \<le> 10 \<Longrightarrow> expandRoundKey r p = Inr (projr (expandRoundKey r p))"
  by (cases p) (simp add: rcon_def index_def rconTable_def Let_def split: prod.splits word4.splits)

lemma generateNewRoundKey_ok:
  assumes "AES_ok a" "currentRound a = int i" "i \<le> 10"
    and "\<forall>j<i. roundKeys a ! j = keySchedule (material (key a)) j"
  shows "generateNewRoundKey a = Inr (keySchedule (material (key a)) i)"
proof (cases i)
  case 0
  then show ?thesis using assms by (simp add: generateNewRoundKey_def GetBytes_def)
next
  case (Suc n)
  then have "roundKeys a ! n = keySchedule (material (key a)) n" using assms by simp
  then show ?thesis
    using assms Suc expandRoundKey_ok [of "int (Suc n)" "keySchedule (material (key a)) n"]
    by (simp add: generateNewRoundKey_def index_def AES_ok_def)
qed

lemma generateAllKeys_loop_ok:
  "AES_ok a \<Longrightarrow> currentRound a = int i \<Longrightarrow> i \<le> 11 \<Longrightarrow>
   \<forall>j<i. roundKeys a ! j = keySchedule (material (key a)) j \<Longrightarrow>
   generateAllKeys_loop (int i) a = Inr (a\<lparr>currentRound := 11, roundKeys := roundKeysOf (key a)\<rparr>)"
proof (induction "11 - i" arbitrary: i a)
  case 0
  then have i: "i = 11" by simp
  have "roundKeys a = roundKeysOf (key a)"
    using 0 i by (intro nth_equalityI) (auto simp: AES_ok_def roundKeysOf_def)
  then show ?case
    using 0 i by (subst generateAllKeys_loop.simps) (simp add: AES_ok_def)
next
  case (Suc n)
  then have i: "i \<le> 10" by simp
  let ?k = "keySchedule (material (key a)) i"
  let ?a' = "nextRound (a\<lparr>roundKeys := (roundKeys a)[i := ?k]\<rparr>)"
  have g: "generateNewRoundKey a = Inr ?k"
    using Suc.prems i by (intro generateNewRoundKey_ok) auto
  have st: "store (roundKeys a) (int i) ?k = Inr ((roundKeys a)[i := ?k])"
    using Suc.prems i by (simp add: store_def AES_ok_def)
  have ih: "generateAllKeys_loop (int (Suc i)) ?a' = Inr (?a'\<lparr>currentRound := 11, roundKeys := roundKeysOf (key ?a')\<rparr>)"
  proof (rule Suc.hyps(1))
    show "n = 11 - Suc i" using Suc.hyps(2) by simp
    show "AES_ok ?a'" using Suc.prems by (simp add: AES_ok_def nextRound_def)
    show "currentRound ?a' = int (Suc i)" using Suc.prems by (simp add: nextRound_def)
    show "Suc i \<le> 11" using i by simp
    show "\<forall>j<Suc i. roundKeys ?a' ! j = keySchedule (material (key ?a')) j"
      using Suc.prems i by (auto simp: nextRound_def AES_ok_def less_Suc_eq nth_list_update)
  qed
  have "generateAllKeys_loop (int i) a = generateAllKeys_loop (int i + 1) ?a'"
    using Suc.prems i by (subst generateAllKeys_loop.simps) (simp add: g st AES_ok_def)
  also have "\<dots> = Inr (?a'\<lparr>currentRound := 11, roundKeys := roundKeysOf (key ?a')\<rparr>)"
    using ih by (simp add: add.commute)
  finally show ?case by (simp add: nextRound_def)
qed

lemma generateAllKeys_ok:
  "AES_ok a \<Longrightarrow> generateAllKeys a = Inr (a\<lparr>currentRound := 11, roundKeys := roundKeysOf (key a)\<rparr>)"
  using generateAllKeys_loop_ok [of "a\<lparr>currentRound := 0\<rparr>" 0]
  by (simp add: generateAllKeys_def AES_ok_def)

lemma encryptRound_ok:
  "AES_ok a \<Longrightarrow> currentRound a = int r \<Longrightarrow> r \<le> 10 \<Longrightarrow>
   encryptRound a st = Inr (encRound (roundKeys a) r st)"
  by (simp add: encryptRound_def encRound_def index_def AES_ok_def Let_def)

lemma decryptRound_ok:
  "AES_ok a \<Longrightarrow> currentRound a = int r \<Longrightarrow> r \<le> 10 \<Longrightarrow>
   decryptRound a st = Inr (decRound (roundKeys a) r st)"
  by (auto simp add: decryptRound_def decRound_def index_def AES_ok_def Let_def)

lemma EncryptBlock_loop_ok:
  "AES_ok a \<Longrightarrow> currentRound a = int j \<Longrightarrow> j \<le> 11 \<Longrightarrow>
   EncryptBlock_loop (int j) a st =
     Inr (fold (encRound (roundKeys a)) [j..<11] st, a\<lparr>currentRound := 11\<rparr>)"
proof (induction "11 - j" arbitrary: j a st)
  case 0
  then show ?case
    by (subst EncryptBlock_loop.simps) (simp add: AES_ok_def)
next
  case (Suc n)
  then have j: "j \<le> 10" by simp
  have ih: "EncryptBlock_loop (int (Suc j)) (nextRound a) (encRound (roundKeys a) j st) =
      Inr (fold (encRound (roundKeys (nextRound a))) [Suc j..<11] (encRound (roundKeys a) j st),
           (nextRound a)\<lparr>currentRound := 11\<rparr>)"
    using Suc.prems Suc.hyps(2) j
    by (intro Suc.hyps(1)) (simp_all add: AES_ok_def nextRound_def)
  have "EncryptBlock_loop (int j) a st =
        EncryptBlock_loop (int j + 1) (nextRound a) (encRound (roundKeys a) j st)"
    using Suc.prems j
    by (subst EncryptBlock_loop.simps) (simp add: encryptRound_ok AES_ok_def)
  also have "\<dots> = Inr (fold (encRound (roundKeys a)) [Suc j..<11] (encRound (roundKeys a) j st),
                       a\<lparr>currentRound := 11\<rparr>)"
    using ih by (simp add: add.commute nextRound_def)
  finally show ?case using j by (simp add: upt_conv_Cons)
qed

lemma DecryptBlock_loop_ok:
  "AES_ok a \<Longrightarrow> currentRound a = int n - 1 \<Longrightarrow> n \<le> 11 \<Longrightarrow>
   DecryptBlock_loop (int n - 1) a st =
     Inr (fold (decRound (roundKeys a)) (rev [0..<n]) st, a\<lparr>currentRound := - 1\<rparr>)"
proof (induction n arbitrary: a st)
  case 0
  then show ?case
    by (subst DecryptBlock_loop.simps) simp
next
  case (Suc n)
  have cr: "currentRound a = int n" using Suc.prems by simp
  have ih: "DecryptBlock_loop (int n - 1) (previousRound a) (decRound (roundKeys a) n st) =
      Inr (fold (decRound (roundKeys (previousRound a))) (rev [0..<n]) (decRound (roundKeys a) n st),
           (previousRound a)\<lparr>currentRound := - 1\<rparr>)"
    using Suc.prems
    by (intro Suc.IH) (simp_all add: AES_ok_def previousRound_def)
  have "DecryptBlock_loop (int (Suc n) - 1) a st =
        DecryptBlock_loop (int n - 1) (previousRound a) (decRound (roundKeys a) n st)"
    using Suc.prems cr
    by (subst DecryptBlock_loop.simps) (simp add: decryptRound_ok)
  also have "\<dots> = Inr (fold (decRound (roundKeys a)) (rev [0..<n]) (decRound (roundKeys a) n st),
                       a\<lparr>currentRound := - 1\<rparr>)"
    using ih by (simp add: previousRound_def)
  finally show ?case by simp
qed

lemma AES_ok_after [simp]:
  "AES_ok a \<Longrightarrow> AES_ok (a\<lparr>currentRound := c, roundKeys := roundKeysOf k\<rparr>)"
  by (simp add: AES_ok_def roundKeysOf_def)

lemma convertArrayToMatrix_cipher:
  "convertArrayToMatrix (cipher k b) = fold (encRound (roundKeysOf k)) [0..<11] (convertArrayToMatrix b)"
  by (simp add: cipher_def)

lemma convertArrayToMatrix_invCipher:
  "convertArrayToMatrix (invCipher k b) = fold (decRound (roundKeysOf k)) (rev [0..<11]) (convertArrayToMatrix b)"
  by (simp add: invCipher_def)

lemma EncryptBlock_ok:
  assumes "AES_ok a"
  shows "EncryptBlock a b =
     Inr (convertArrayToMatrix (cipher (key a) b), a\<lparr>currentRound := 11, roundKeys := roundKeysOf (key a)\<rparr>)"
proof -
  let ?a1 = "a\<lparr>currentRound := 11, roundKeys := roundKeysOf (key a)\<rparr>"
  have "EncryptBlock_loop (int 0) (?a1\<lparr>currentRound := 0\<rparr>) (convertArrayToMatrix b) =
        Inr (fold (encRound (roundKeys (?a1\<lparr>currentRound := 0\<rparr>))) [0..<11] (convertArrayToMatrix b),
             ?a1\<lparr>currentRound := 0\<rparr>\<lparr>currentRound := 11\<rparr>)"
    using assms by (intro EncryptBlock_loop_ok) (simp_all add: AES_ok_def roundKeysOf_def)
  then show ?thesis
    using assms by (simp add: EncryptBlock_def generateAllKeys_ok convertArrayToMatrix_cipher)
qed

lemma DecryptBlock_ok:
  assumes "AES_ok a"
  shows "DecryptBlock a b =
     Inr (convertArrayToMatrix (invCipher (key a) b), a\<lparr>currentRound := - 1, roundKeys := roundKeysOf (key a)\<rparr>)"
proof -
  let ?a1 = "a\<lparr>currentRound := 11, roundKeys := roundKeysOf (key a)\<rparr>"
  have "DecryptBlock_loop (int 11 - 1) (?a1\<lparr>currentRound := 10\<rparr>) (convertArrayToMatrix b) =
        Inr (fold (decRound (roundKeys (?a1\<lparr>currentRound := 10\<rparr>))) (rev [0..<11]) (convertArrayToMatrix b),
             ?a1\<lparr>currentRound := 10\<rparr>\<lparr>currentRound := - 1\<rparr>)"
    using assms by (intro DecryptBlock_loop_ok) (simp_all add: AES_ok_def roundKeysOf_def)
  then show ?thesis
    using assms by (simp add: DecryptBlock_def generateAllKeys_ok convertArrayToMatrix_invCipher AES_ok_def)
qed

lemma upt_0_11: "[0..<11] = [0, 1, 2, 3, 4, 5, 6, 7, 8, 9, 10]"
  by (simp add: upt_rec)

lemma invCipher_cipher [simp]: "invCipher k (cipher k b) = b"
  by (simp add: invCipher_def cipher_def upt_0_11 encRound_def decRound_def)

lemma cipher_invCipher [simp]: "cipher k (invCipher k b) = b"
  by (simp add: invCipher_def cipher_def upt_0_11 encRound_def decRound_def)

section \<open>Blocks and padding\<close>

lemma chunks_Nil [simp]: "chunks [] = []"
  by (subst chunks.simps) simp

lemma chunks_short: "xs \<noteq> [] \<Longrightarrow> length xs \<le> 16 \<Longrightarrow> chunks xs = [xs]"
  by (subst chunks.simps) simp

lemma chunks_block: "length a = 16 \<Longrightarrow> chunks (a @ ys) = a # chunks ys"
  by (subst chunks.simps) auto

lemma split_loop_chunks: "split_loop pt i acc = acc @ chunks (drop i pt)"
proof (induction pt i acc rule: split_loop.induct)
  case (1 pt i acc)
  show ?case
  proof (cases "i < length pt")
    case True
    let ?e = "if i + 16 > length pt then length pt else i + 16"
    have t: "take (?e - i) (drop i pt) = take 16 (drop i pt)"
      using True by auto
    have "split_loop pt i acc = split_loop pt (i + 16) (acc @ [take 16 (drop i pt)])"
      using True t by (subst split_loop.simps) (simp add: Let_def)
    also have "\<dots> = (acc @ [take 16 (drop i pt)]) @ chunks (drop (i + 16) pt)"
      using "1.IH" [OF True refl] t by (simp add: Let_def)
    also have "\<dots> = acc @ chunks (drop i pt)"
      using True by (subst (2) chunks.simps) (simp add: add.commute)
    finally show ?thesis .
  next
    case False
    then show ?thesis by (subst split_loop.simps) simp
  qed
qed

lemma split_chunks: "split xs = chunks xs"
  by (simp add: split_def split_loop_chunks)

lemma join_concat: "join blocks = concat blocks"
proof -
  have "foldl (\<lambda>r block. r @ block) acc blocks = acc @ concat blocks" for acc
    by (induction blocks arbitrary: acc) simp_all
  then show ?thesis by (simp add: join_def)
qed

lemma chunks_append:
  "length xs mod 16 = 0 \<Longrightarrow> chunks (xs @ ys) = chunks xs @ chunks ys"
proof (induction xs rule: chunks.induct)
  case (1 xs)
  show ?case
  proof (cases "xs = []")
    case True
    then show ?thesis by simp
  next
    case False
    with "1.prems" have len: "length xs \<ge> 16" 
      by (metis length_0_conv mod_less not_le_imp_less)
    then have xs: "xs = take 16 xs @ drop 16 xs" "length (take 16 xs) = 16" by simp_all
    have "(length xs - 16) mod 16 = 0"
      using "1.prems" len by presburger
    then have m: "length (drop 16 xs) mod 16 = 0" by simp
    have "chunks (xs @ ys) = chunks (take 16 xs @ (drop 16 xs @ ys))"
      using xs(1) by (metis append.assoc)
    also have "\<dots> = take 16 xs # chunks (drop 16 xs @ ys)"
      using xs(2) by (rule chunks_block)
    also have "\<dots> = take 16 xs # (chunks (drop 16 xs) @ chunks ys)"
      using "1.IH" [OF False m] by simp
    also have "\<dots> = chunks xs @ chunks ys"
      using False by (subst (3) chunks.simps) simp
    finally show ?thesis .
  qed
qed

lemma concat_chunks [simp]: "concat (chunks xs) = xs"
proof (induction xs rule: chunks.induct)
  case (1 xs)
  show ?case
  proof (cases "xs = []")
    case True
    then show ?thesis by simp
  next
    case False
    then show ?thesis using "1.IH" by (subst chunks.simps) simp
  qed
qed

lemma foldl_update_replicate:
  "l \<le> n \<Longrightarrow> length s = n \<Longrightarrow>
   foldl (\<lambda>s i. s[i := v]) s [l..<n] = take l s @ replicate (n - l) v"
proof (induction "n - l" arbitrary: l s)
  case 0
  then show ?case by simp
next
  case (Suc k)
  then have l: "l < n" by simp
  have "foldl (\<lambda>s i. s[i := v]) s [l..<n] = foldl (\<lambda>s i. s[i := v]) (s[l := v]) [Suc l..<n]"
    using l by (simp add: upt_conv_Cons)
  also have "\<dots> = take (Suc l) (s[l := v]) @ replicate (n - Suc l) v"
    using Suc l by (intro Suc.hyps(1)) simp_all
  also have "\<dots> = take l s @ replicate (n - l) v"
    using l Suc.prems 
    by (simp add: take_Suc_conv_app_nth replicate_app_Cons_same Suc_diff_Suc flip: replicate_Suc)
  finally show ?case .
qed

lemma padding_full: "length block = 16 \<Longrightarrow> padding block = block @ replicate 16 0x10"
  by (simp add: padding_def)

lemma padding_short:
  assumes "length block < 16"
  shows "padding block = block @ replicate (16 - length block) (of_nat (16 - length block))"
proof -
  let ?s = "block @ replicate (16 - length block) (0::byte)"
  have w: "(word_of_int (16 - int (length block)) :: byte) = of_nat (16 - length block)"
    using assms by (simp add: of_nat_diff)
  have "padding block = foldl (\<lambda>s i. s[i := of_nat (16 - length block)]) ?s [length block..<16]"
    using assms w by (simp add: padding_def Let_def min_def)
  also have "\<dots> = take (length block) ?s @ replicate (16 - length block) (of_nat (16 - length block))"
    using assms by (intro foldl_update_replicate) simp_all
  finally show ?thesis by simp
qed

lemma chunks_snoc:
  assumes "length b1 mod 16 = 0" "b2 \<noteq> []" "length b2 \<le> 16"
  shows "chunks (b1 @ b2) = chunks b1 @ [b2]"
  using assms by (simp add: chunks_append chunks_short)

lemma RemovePadding_snoc:
  assumes b1: "length b1 mod 16 = 0" and b2: "length b2 = 16"
  shows "RemovePadding (b1 @ b2) =
     (if paddingValid b2 then Inr (b1 @ take (16 - unat (last b2)) b2) else Inl (Err InvalidPadding))"
proof -
  have ne: "b2 \<noteq> []" using b2 by auto
  have sp: "split (b1 @ b2) = chunks b1 @ [b2]"
    using b1 b2 ne by (simp add: split_chunks chunks_snoc)
  have i1: "index (chunks b1 @ [b2]) (int (length (chunks b1 @ [b2])) - 1) = Inr b2"
    by (simp add: index_def)
  have "nat (int (length (b1 @ b2)) - 1) = length b1 + 15" using b2 by simp
  then have i2: "index (b1 @ b2) (int (length (b1 @ b2)) - 1) = Inr (last b2)"
    using ne b2 by (simp add: index_def nth_append last_conv_nth)
  have u: "uint (last b2) = int (unat (last b2))" by simp
  have nn: "nat (16 - int (unat (last b2))) = 16 - unat (last b2)" by arith
  show ?thesis
    unfolding RemovePadding_def sp Let_def i1 i2 sum.case
    using b2 by (auto simp add: paddingValid_def join_concat u nn simp del: of_nat_unat uint_nat 
        split: if_splits)
qed

lemma paddingValid_append:
  assumes "length b2 = 16"
  shows "paddingValid (b1 @ b2) = paddingValid b2"
proof -
  have ne: "b2 \<noteq> []" using assms by auto
  show ?thesis
    using assms ne by (auto simp add: paddingValid_def)
qed

lemma RemovePadding_blocks:
  assumes "b \<noteq> []" "length b mod 16 = 0"
  shows "RemovePadding b =
     (if paddingValid b then Inr (take (length b - unat (last b)) b) else Inl (Err InvalidPadding))"
proof -
  let ?n = "length b"
  have n: "?n \<ge> 16" using assms
    by (metis length_0_conv mod_less not_le_imp_less)
  define b1 where "b1 = take (?n - 16) b"
  define b2 where "b2 = drop (?n - 16) b"
  have b: "b = b1 @ b2" by (simp add: b1_def b2_def)
  have l2: "length b2 = 16" using n by (simp add: b2_def)
  have "(?n - 16) mod 16 = 0" using assms(2) n by presburger
  then have l1: "length b1 mod 16 = 0" using n by (simp add: b1_def)
  have "b2 \<noteq> []" using l2 by auto
  then have lst: "last (b1 @ b2) = last b2" by simp
  have t: "unat (last b2) \<le> 16 \<Longrightarrow>
      take (length (b1 @ b2) - unat (last b2)) (b1 @ b2) = b1 @ take (16 - unat (last b2)) b2"
    using l2 by simp
  have "RemovePadding (b1 @ b2) =
     (if paddingValid (b1 @ b2) then Inr (take (length (b1 @ b2) - unat (last (b1 @ b2))) (b1 @ b2))
      else Inl (Err InvalidPadding))"
    unfolding RemovePadding_snoc [OF l1 l2] paddingValid_append [OF l2] lst
    using t by (simp add: paddingValid_def)
  then show ?thesis by (simp only: b [symmetric])
qed

section \<open>The counter increment\<close>

lemma byte_less_255: "(x::byte) < 255 \<longleftrightarrow> x \<noteq> 255"
  using unsigned_less [of x, where 'a = nat] by (auto simp add: word_less_nat_alt word_unat_eq_iff)

lemma unat_byte_Suc: "(x::byte) < 255 \<Longrightarrow> unat (x + 1) = unat x + 1"
  by (simp add: unat_word_ariths word_less_nat_alt)

lemma addOneToByteSlice_loop_incrLE:
  "addOneToByteSlice_loop (xs @ zs) (int (length xs) - 1) = rev (incrLE (rev xs)) @ zs"
proof (induction xs arbitrary: zs rule: rev_induct)
  case Nil
  show ?case by (subst addOneToByteSlice_loop.simps) simp
next
  case (snoc x xs)
  have n: "nat (int (length (xs @ [x])) - 1) = length xs" by simp
  show ?case
  proof (cases "x < 255")
    case True
    then show ?thesis
      by (subst addOneToByteSlice_loop.simps) (simp add: n nth_append list_update_append)
  next
    case False
    have "addOneToByteSlice_loop ((xs @ [x]) @ zs) (int (length (xs @ [x])) - 1) =
          addOneToByteSlice_loop (xs @ (0 # zs)) (int (length xs) - 1)"
      using False
      by (subst addOneToByteSlice_loop.simps) (simp add: n nth_append list_update_append)
    also have "\<dots> = rev (incrLE (rev xs)) @ 0 # zs" by (rule snoc.IH)
    finally show ?thesis using False by simp
  qed
qed

lemma addOneToByteSlice_incrLE: "addOneToByteSlice b = rev (incrLE (rev b))"
  using addOneToByteSlice_loop_incrLE [of b "[]"] by (simp add: addOneToByteSlice_def)

lemma leValue_incrLE: "leValue (incrLE xs) = leValue xs + 1"
proof (induction xs)
  case Nil
  show ?case by simp
next
  case (Cons x xs)
  show ?case
  proof (cases "x < 255")
    case True
    then show ?thesis by (simp add: unat_byte_Suc)
  next
    case False
    then have "x = 255" by (simp add: byte_less_255)
    then show ?thesis using Cons.IH by simp
  qed
qed

lemma beValue_leValue: "beValue b = leValue (rev b)"
proof -
  have "foldl (\<lambda>acc x. acc * 256 + unat x) acc b = acc * 256 ^ length b + leValue (rev b)" for acc
  proof (induction b arbitrary: acc rule: rev_induct)
    case Nil
    show ?case by simp
  next
    case (snoc x xs)
    show ?case by (simp add: snoc.IH)
  qed
  from this [of 0] show ?thesis by (simp add: beValue_def)
qed

lemma incrLE_replicate: "incrLE (replicate n 255) = replicate n 0 @ [1]"
  by (induction n) simp_all

lemma incrLE_carry: "x \<noteq> 255 \<Longrightarrow> incrLE (replicate m 255 @ x # xs) = replicate m 0 @ (x + 1) # xs"
  by (induction m) (simp_all add: byte_less_255)

section \<open>The loops of the modes\<close>

lemma toArray16_ok: "16 \<le> length s \<Longrightarrow> toArray16 s = Inr (asBlock s)"
  by (simp add: asBlock_def toArray16_def)

lemma toArray16_short: "length s < 16 \<Longrightarrow> toArray16 s = Inl (Panic SliceToArrayTooShort)"
  by (simp add: toArray16_def)

lemma asBlock_toSlice [simp]: "asBlock (toSlice b) = b"
  by (simp add: asBlock_def)

lemma list16:
  assumes "length s = 16"
  shows "s = [s ! 0, s ! 1, s ! 2, s ! 3, s ! 4, s ! 5, s ! 6, s ! 7,
              s ! 8, s ! 9, s ! 10, s ! 11, s ! 12, s ! 13, s ! 14, s ! 15]"
  using assms by (intro nth_equalityI) (auto simp add: less_Suc_eq eval_nat_numeral)

lemma toSlice_asBlock: "length s = 16 \<Longrightarrow> toSlice (asBlock s) = s"
  using list16 [of s] by (simp add: asBlock_def toArray16_def)

lemma EncryptBlock_ex:
  "AES_ok a \<Longrightarrow> \<exists>a'. EncryptBlock a b = Inr (convertArrayToMatrix (cipher (key a) b), a') \<and>
      AES_ok a' \<and> key a' = key a"
  by (simp add: EncryptBlock_ok)

lemma DecryptBlock_ex:
  "AES_ok a \<Longrightarrow> \<exists>a'. DecryptBlock a b = Inr (convertArrayToMatrix (invCipher (key a) b), a') \<and>
      AES_ok a' \<and> key a' = key a"
  by (simp add: DecryptBlock_ok)

lemma encryptECB_loop_ok:
  "AES_ok a \<Longrightarrow> list_all (\<lambda>b. length b = 16) bs \<Longrightarrow>
   \<exists>a'. encryptECB_loop a bs r =
          Inr (r @ concat (map (\<lambda>b. toSlice (cipher (key a) (asBlock b))) bs), a') \<and>
        AES_ok a' \<and> key a' = key a"
proof (induction bs arbitrary: a r)
  case Nil
  then show ?case by simp
next
  case (Cons b bs)
  obtain a1 where a1: "EncryptBlock a (asBlock b) = Inr (convertArrayToMatrix (cipher (key a) (asBlock b)), a1)"
      "AES_ok a1" "key a1 = key a"
    using EncryptBlock_ex [OF Cons.prems(1)] by blast
  have bs: "list_all (\<lambda>b. length b = 16) bs" using Cons.prems(2) by simp
  obtain a' where "encryptECB_loop a1 bs (r @ toSlice (cipher (key a) (asBlock b))) =
      Inr ((r @ toSlice (cipher (key a) (asBlock b))) @
           concat (map (\<lambda>b. toSlice (cipher (key a1) (asBlock b))) bs), a')"
      "AES_ok a'" "key a' = key a1"
    using Cons.IH [OF a1(2) bs] by blast
  then show ?case using Cons.prems(2) a1 by (simp add: toArray16_ok)
qed

lemma decryptECB_loop_ok:
  "AES_ok a \<Longrightarrow> list_all (\<lambda>b. length b = 16) bs \<Longrightarrow>
   \<exists>a'. decryptECB_loop a bs r =
          Inr (r @ concat (map (\<lambda>b. toSlice (invCipher (key a) (asBlock b))) bs), a') \<and>
        AES_ok a' \<and> key a' = key a"
proof (induction bs arbitrary: a r)
  case Nil
  then show ?case by simp
next
  case (Cons b bs)
  obtain a1 where a1: "DecryptBlock a (asBlock b) = Inr (convertArrayToMatrix (invCipher (key a) (asBlock b)), a1)"
      "AES_ok a1" "key a1 = key a"
    using DecryptBlock_ex [OF Cons.prems(1)] by blast
  have bs: "list_all (\<lambda>b. length b = 16) bs" using Cons.prems(2) by simp
  obtain a' where "decryptECB_loop a1 bs (r @ toSlice (invCipher (key a) (asBlock b))) =
      Inr ((r @ toSlice (invCipher (key a) (asBlock b))) @
           concat (map (\<lambda>b. toSlice (invCipher (key a1) (asBlock b))) bs), a')"
      "AES_ok a'" "key a' = key a1"
    using Cons.IH [OF a1(2) bs] by blast
  then show ?case using Cons.prems(2) a1 by (simp add: toArray16_ok)
qed

lemma decryptECB_loop_panic:
  "AES_ok a \<Longrightarrow> list_all (\<lambda>b. length b = 16) full \<Longrightarrow> length short < 16 \<Longrightarrow>
   decryptECB_loop a (full @ short # rest) r = Inl (Panic SliceToArrayTooShort)"
proof (induction full arbitrary: a r)
  case Nil
  then show ?case by (simp add: toArray16_short)
next
  case (Cons b bs)
  obtain a1 where a1: "DecryptBlock a (asBlock b) = Inr (convertArrayToMatrix (invCipher (key a) (asBlock b)), a1)"
      "AES_ok a1" "key a1 = key a"
    using DecryptBlock_ex [OF Cons.prems(1)] by blast
  have bs: "list_all (\<lambda>b. length b = 16) bs" using Cons.prems(2) by simp
  show ?case using Cons.prems a1 Cons.IH [OF a1(2) bs Cons.prems(3)] by (simp add: toArray16_ok)
qed

lemma encryptCBC_loop_ok:
  "AES_ok a \<Longrightarrow> list_all (\<lambda>b. length b = 16) bs \<Longrightarrow> length prev = 16 \<Longrightarrow>
   \<exists>a'. encryptCBC_loop a bs prev r = Inr (r @ concat (cbcEnc (key a) prev bs), a') \<and>
        AES_ok a' \<and> key a' = key a"
proof (induction bs arbitrary: a r prev)
  case Nil
  then show ?case by simp
next
  case (Cons b bs)
  let ?x = "asBlock (xorBytes b prev)"
  let ?c = "toSlice (cipher (key a) ?x)"
  obtain a1 where a1: "EncryptBlock a ?x = Inr (convertArrayToMatrix (cipher (key a) ?x), a1)"
      "AES_ok a1" "key a1 = key a"
    using EncryptBlock_ex [OF Cons.prems(1)] by blast
  have bs: "list_all (\<lambda>b. length b = 16) bs" using Cons.prems(2) by simp
  have lx: "length (xorBytes b prev) = 16" using Cons.prems by (simp add: xorBytes_def)
  obtain a' where "encryptCBC_loop a1 bs ?c (r @ ?c) = Inr ((r @ ?c) @ concat (cbcEnc (key a1) ?c bs), a')"
      "AES_ok a'" "key a' = key a1"
    using Cons.IH [OF a1(2) bs, of ?c "r @ ?c"] by auto
  then show ?case using a1 lx by (simp add: toArray16_ok Let_def)
qed

lemma decryptCBC_loop_ok:
  "AES_ok a \<Longrightarrow> list_all (\<lambda>b. length b = 16) cs \<Longrightarrow>
   \<exists>a'. decryptCBC_loop a cs prev r = Inr (r @ concat (cbcDec (key a) prev cs), a') \<and>
        AES_ok a' \<and> key a' = key a"
proof (induction cs arbitrary: a r prev)
  case Nil
  then show ?case by simp
next
  case (Cons c cs)
  let ?p = "xorBytes (toSlice (invCipher (key a) (asBlock c))) prev"
  obtain a1 where a1: "DecryptBlock a (asBlock c) = Inr (convertArrayToMatrix (invCipher (key a) (asBlock c)), a1)"
      "AES_ok a1" "key a1 = key a"
    using DecryptBlock_ex [OF Cons.prems(1)] by blast
  have cs: "list_all (\<lambda>b. length b = 16) cs" using Cons.prems(2) by simp
  obtain a' where "decryptCBC_loop a1 cs c (r @ ?p) = Inr ((r @ ?p) @ concat (cbcDec (key a1) c cs), a')"
      "AES_ok a'" "key a' = key a1"
    using Cons.IH [OF a1(2) cs, of c "r @ ?p"] by blast
  then show ?case using a1 Cons.prems(2) by (simp add: toArray16_ok Let_def)
qed

lemma decryptCBC_loop_panic:
  "AES_ok a \<Longrightarrow> list_all (\<lambda>b. length b = 16) full \<Longrightarrow> length short < 16 \<Longrightarrow>
   decryptCBC_loop a (full @ short # rest) prev r = Inl (Panic SliceToArrayTooShort)"
proof (induction full arbitrary: a r prev)
  case Nil
  then show ?case by (simp add: toArray16_short)
next
  case (Cons b bs)
  obtain a1 where a1: "DecryptBlock a (asBlock b) = Inr (convertArrayToMatrix (invCipher (key a) (asBlock b)), a1)"
      "AES_ok a1" "key a1 = key a"
    using DecryptBlock_ex [OF Cons.prems(1)] by blast
  have bs: "list_all (\<lambda>b. length b = 16) bs" using Cons.prems(2) by simp
  show ?case using Cons.prems a1 Cons.IH [OF a1(2) bs Cons.prems(3)] by (simp add: toArray16_ok)
qed

lemma length_addOneToByteSlice: "length b \<le> length (addOneToByteSlice b)"
proof -
  have "length xs \<le> length (incrLE xs)" for xs
    by (induction xs) simp_all
  from this [of "rev b"] show ?thesis by (simp add: addOneToByteSlice_incrLE)
qed

lemma encryptCTR_loop_ok:
  "AES_ok a \<Longrightarrow> 16 \<le> length counter \<Longrightarrow>
   \<exists>a'. encryptCTR_loop a bs counter r = Inr (r @ concat (ctrBlocks (key a) counter bs), a') \<and>
        AES_ok a' \<and> key a' = key a"
proof (induction bs arbitrary: a r counter)
  case Nil
  then show ?case by simp
next
  case (Cons b bs)
  let ?x = "xorBytes b (toSlice (cipher (key a) (asBlock counter)))"
  obtain a1 where a1: "EncryptBlock a (asBlock counter) = Inr (convertArrayToMatrix (cipher (key a) (asBlock counter)), a1)"
      "AES_ok a1" "key a1 = key a"
    using EncryptBlock_ex [OF Cons.prems(1)] by blast
  have c: "16 \<le> length (addOneToByteSlice counter)"
    using Cons.prems(2) length_addOneToByteSlice [of counter] by simp
  obtain a' where "encryptCTR_loop a1 bs (addOneToByteSlice counter) (r @ ?x) =
      Inr ((r @ ?x) @ concat (ctrBlocks (key a1) (addOneToByteSlice counter) bs), a')"
      "AES_ok a'" "key a' = key a1"
    using Cons.IH [OF a1(2) c] by blast
  then show ?case using a1 Cons.prems(2) by (simp add: toArray16_ok Let_def)
qed

lemma chunks_all16: "length ys mod 16 = 0 \<Longrightarrow> list_all (\<lambda>b. length b = 16) (chunks ys)"
proof (induction ys rule: chunks.induct)
  case (1 xs)
  show ?case
  proof (cases "xs = []")
    case True
    then show ?thesis by simp
  next
    case False
    with "1.prems" have len: "length xs \<ge> 16"
      by (metis length_0_conv mod_less not_le_imp_less)
    have "(length xs - 16) mod 16 = 0"
      using "1.prems" len by presburger
    then have m: "length (drop 16 xs) mod 16 = 0" by simp
    have c: "chunks xs = take 16 xs # chunks (drop 16 xs)"
      using False by (subst chunks.simps) simp
    show ?thesis unfolding c using "1.IH" [OF False m] len by simp
  qed
qed

lemma chunks_ragged:
  assumes "length xs mod 16 \<noteq> 0"
  shows "\<exists>full short. chunks xs = full @ [short] \<and> list_all (\<lambda>b. length b = 16) full \<and> length short < 16"
proof -
  let ?m = "16 * (length xs div 16)"
  have m: "?m \<le> length xs" by simp
  have l1: "length (take ?m xs) mod 16 = 0" using m by simp
  have l2: "length (drop ?m xs) = length xs mod 16"
    by (simp add: minus_mult_div_eq_mod)
  have ne: "drop ?m xs \<noteq> []" using l2 assms by auto
  have "chunks (take ?m xs @ drop ?m xs) = chunks (take ?m xs) @ [drop ?m xs]"
    using l1 ne l2 by (intro chunks_snoc) simp_all
  then have "chunks xs = chunks (take ?m xs) @ [drop ?m xs]" by simp
  moreover have "list_all (\<lambda>b. length b = 16) (chunks (take ?m xs))"
    using l1 by (rule chunks_all16)
  moreover have "length (drop ?m xs) < 16" using l2 by simp
  ultimately show ?thesis by blast
qed

lemma AES_ok_New: "\<exists>a. New k = Inr a \<and> AES_ok a \<and> key a = k"
proof -
  obtain m where "k = \<lparr>material = m\<rparr>" by (cases k) simp
  then show ?thesis by (simp add: New_def Len_def AES_ok_def)
qed

lemma New_eq: "New k = Inr \<lparr>key = k, rounds = 10, currentRound = 0, roundKeys = replicate 11 zero16\<rparr>"
  by (simp add: New_def Len_def)

section \<open>Block round trip\<close>

text \<open>
  C1.  For every 16-byte key and every 16-byte block \<open>b\<close>, on the cipher object made by
  \<open>New\<close>: encrypting \<open>b\<close> with \<open>EncryptBlock\<close>, turning the resulting 4x4 state back into
  an array with \<open>convertMatrixToArray\<close> and decrypting it with \<open>DecryptBlock\<close> returns the
  state of \<open>b\<close>, whose array is \<open>b\<close> again; and the same with decryption first and
  encryption second.  Neither call panics.
\<close>

theorem block_round_trip:
  "(\<exists>a m1 a1 m2 a2. New k = Inr a \<and> EncryptBlock a b = Inr (m1, a1) \<and>
       DecryptBlock a1 (convertMatrixToArray m1) = Inr (m2, a2) \<and> convertMatrixToArray m2 = b) \<and>
   (\<exists>a m1 a1 m2 a2. New k = Inr a \<and> DecryptBlock a b = Inr (m1, a1) \<and>
       EncryptBlock a1 (convertMatrixToArray m1) = Inr (m2, a2) \<and> convertMatrixToArray m2 = b)"
proof -
  obtain a where a: "New k = Inr a" "AES_ok a" "key a = k"
    using AES_ok_New by blast
  let ?e = "a\<lparr>currentRound := 11, roundKeys := roundKeysOf k\<rparr>"
  let ?d = "a\<lparr>currentRound := - 1, roundKeys := roundKeysOf k\<rparr>"
  have ok: "AES_ok ?e" "AES_ok ?d" using a(2) by simp_all
  have e1: "EncryptBlock a b = Inr (convertArrayToMatrix (cipher k b), ?e)"
    using EncryptBlock_ok [OF a(2), of b] a(3) by simp
  have d1: "DecryptBlock ?e (cipher k b) = Inr (convertArrayToMatrix b, ?d)"
    using DecryptBlock_ok [OF ok(1), of "cipher k b"] a(3) by simp
  have d2: "DecryptBlock a b = Inr (convertArrayToMatrix (invCipher k b), ?d)"
    using DecryptBlock_ok [OF a(2), of b] a(3) by simp
  have e2: "EncryptBlock ?d (invCipher k b) = Inr (convertArrayToMatrix b, ?e)"
    using EncryptBlock_ok [OF ok(2), of "invCipher k b"] a(3) by simp
  show ?thesis using a(1) e1 d1 d2 e2 by simp
qed

section \<open>Known-answer vectors\<close>

lemma cipher_appendix_C1:
  "cipher (NewKey (B16 0x00 0x01 0x02 0x03 0x04 0x05 0x06 0x07 0x08 0x09 0x0a 0x0b 0x0c 0x0d 0x0e 0x0f))
     (B16 0x00 0x11 0x22 0x33 0x44 0x55 0x66 0x77 0x88 0x99 0xaa 0xbb 0xcc 0xdd 0xee 0xff) =
   B16 0x69 0xc4 0xe0 0xd8 0x6a 0x7b 0x04 0x30 0xd8 0xcd 0xb7 0x80 0x70 0xb4 0xc5 0x5a"
  by code_simp

lemma cipher_appendix_B:
  "cipher (NewKey (B16 0x2b 0x7e 0x15 0x16 0x28 0xae 0xd2 0xa6 0xab 0xf7 0x15 0x88 0x09 0xcf 0x4f 0x3c))
     (B16 0x32 0x43 0xf6 0xa8 0x88 0x5a 0x30 0x8d 0x31 0x31 0x98 0xa2 0xe0 0x37 0x07 0x34) =
   B16 0x39 0x25 0x84 0x1d 0x02 0xdc 0x09 0xfb 0xdc 0x11 0x85 0x97 0x19 0x6a 0x0b 0x32"
  by code_simp

text \<open>
  C2.  With the key \<open>000102030405060708090a0b0c0d0e0f\<close>, \<open>EncryptBlock\<close> maps the block
  \<open>00112233445566778899aabbccddeeff\<close> to the state whose array is
  \<open>69c4e0d86a7b0430d8cdb78070b4c55a\<close>; with the key \<open>2b7e151628aed2a6abf7158809cf4f3c\<close> it
  maps \<open>3243f6a8885a308d313198a2e0370734\<close> to \<open>3925841d02dc09fbdc118597196a0b32\<close>.
\<close>

theorem EncryptBlock_known_answers:
  "(\<exists>a m a'. New (NewKey (B16 0x00 0x01 0x02 0x03 0x04 0x05 0x06 0x07 0x08 0x09 0x0a 0x0b 0x0c 0x0d 0x0e 0x0f)) = Inr a \<and>
      EncryptBlock a (B16 0x00 0x11 0x22 0x33 0x44 0x55 0x66 0x77 0x88 0x99 0xaa 0xbb 0xcc 0xdd 0xee 0xff) = Inr (m, a') \<and>
      convertMatrixToArray m = B16 0x69 0xc4 0xe0 0xd8 0x6a 0x7b 0x04 0x30 0xd8 0xcd 0xb7 0x80 0x70 0xb4 0xc5 0x5a) \<and>
   (\<exists>a m a'. New (NewKey (B16 0x2b 0x7e 0x15 0x16 0x28 0xae 0xd2 0xa6 0xab 0xf7 0x15 0x88 0x09 0xcf 0x4f 0x3c)) = Inr a \<and>
      EncryptBlock a (B16 0x32 0x43 0xf6 0xa8 0x88 0x5a 0x30 0x8d 0x31 0x31 0x98 0xa2 0xe0 0x37 0x07 0x34) = Inr (m, a') \<and>
      convertMatrixToArray m = B16 0x39 0x25 0x84 0x1d 0x02 0xdc 0x09 0xfb 0xdc 0x11 0x85 0x97 0x19 0x6a 0x0b 0x32)"
proof -
  have enc: "\<exists>a m a'. New k = Inr a \<and> EncryptBlock a b = Inr (m, a') \<and> convertMatrixToArray m = cipher k b"
    for k b
  proof -
    obtain a where a: "New k = Inr a" "AES_ok a" "key a = k"
      using AES_ok_New by blast
    show ?thesis using a EncryptBlock_ok [OF a(2), of b] by simp
  qed
  show ?thesis
    using enc [of "NewKey (B16 0x00 0x01 0x02 0x03 0x04 0x05 0x06 0x07 0x08 0x09 0x0a 0x0b 0x0c 0x0d 0x0e 0x0f)"
                  "B16 0x00 0x11 0x22 0x33 0x44 0x55 0x66 0x77 0x88 0x99 0xaa 0xbb 0xcc 0xdd 0xee 0xff"]
          enc [of "NewKey (B16 0x2b 0x7e 0x15 0x16 0x28 0xae 0xd2 0xa6 0xab 0xf7 0x15 0x88 0x09 0xcf 0x4f 0x3c)"
                  "B16 0x32 0x43 0xf6 0xa8 0x88 0x5a 0x30 0x8d 0x31 0x31 0x98 0xa2 0xe0 0x37 0x07 0x34"]
    unfolding cipher_appendix_C1 cipher_appendix_B by blast
qed

lemma padBytes_props:
  fixes pt :: "byte list"
  defines "k \<equiv> 16 - length pt mod 16"
  shows "1 \<le> k" "k \<le> 16" "unat (of_nat k :: byte) = k" "(of_nat k :: byte) \<noteq> 0"
    "length (pt @ padBytes pt) mod 16 = 0" "padBytes pt = replicate k (of_nat k)"
proof -
  show k1: "1 \<le> k" and k16: "k \<le> 16" by (simp_all add: k_def)
  show u: "unat (of_nat k :: byte) = k" using k16 by (simp add: unat_of_nat)
  then show "(of_nat k :: byte) \<noteq> 0" using k1 by (metis not_one_le_zero unat_0)
  show "length (pt @ padBytes pt) mod 16 = 0"
    unfolding padBytes_def length_append length_replicate by presburger
  show "padBytes pt = replicate k (of_nat k)" by (simp add: padBytes_def k_def)
qed

lemma RemovePadding_padBytes: "RemovePadding (pt @ padBytes pt) = Inr pt"
proof -
  define k where "k = 16 - length pt mod 16"
  note p = padBytes_props [of pt, folded k_def]
  let ?b = "pt @ replicate k (of_nat k :: byte)"
  have ne: "?b \<noteq> []" using p(1) by auto
  have lst: "last ?b = of_nat k" using p(1) by (cases k) simp_all
  have v: "paddingValid ?b"
    using p(1-4) by (simp add: paddingValid_def lst list_all_iff)
  have "RemovePadding ?b = Inr (take (length ?b - unat (last ?b)) ?b)"
    using RemovePadding_blocks [OF ne] p(5) v by (simp add: p(6))
  then show ?thesis using p(3) by (simp add: p(6) lst)
qed

lemma padding_padBytes: "length block \<le> 16 \<Longrightarrow> padding block = block @ padBytes block"
proof (cases "length block = 16")
  case True
  then show ?thesis by (simp add: padding_full padBytes_def)
next
  case False
  assume "length block \<le> 16"
  with False have "length block < 16" by simp
  then show ?thesis by (simp add: padding_short padBytes_def)
qed

lemma length_last_split:
  assumes "b \<noteq> []" "length b mod 16 = 0"
  shows "length (last (split b)) = 16"
proof -
  let ?n = "length b"
  have n: "?n \<ge> 16" using assms
    by (metis length_0_conv mod_less not_le_imp_less)
  have "(?n - 16) mod 16 = 0" using assms(2) n by presburger
  then have "chunks (take (?n - 16) b @ drop (?n - 16) b) = chunks (take (?n - 16) b) @ [drop (?n - 16) b]"
    using n by (intro chunks_snoc) auto
  then show ?thesis using n by (simp add: split_chunks)
qed

text \<open>
  C6.  For every buffer whose length is a positive multiple of 16, with \<open>p\<close> its last byte:
  \<open>RemovePadding\<close> returns the error "Invalid padding" exactly when \<open>p\<close> is 0, or \<open>p\<close> is
  larger than the length of the final block, or the start index (that length minus \<open>p\<close>) is
  negative, or one of the last \<open>p\<close> bytes differs from \<open>p\<close>; otherwise it returns the
  buffer without its last \<open>p\<close> bytes.
\<close>

theorem RemovePadding_cases:
  assumes "0 < length b" and "length b mod 16 = 0"
  shows "RemovePadding b =
     (if last b = 0 \<or> unat (last b) > length (last (split b)) \<or>
         int (length (last (split b))) - uint (last b) < 0 \<or>
         (\<exists>x \<in> set (drop (length b - unat (last b)) b). x \<noteq> last b)
      then Inl (Err InvalidPadding)
      else Inr (take (length b - unat (last b)) b))"
proof -
  have ne: "b \<noteq> []" using assms(1) by auto
  have l: "length (last (split b)) = 16" using ne assms(2) by (rule length_last_split)
  have u: "uint (last b) = int (unat (last b))" by simp
  show ?thesis
    unfolding RemovePadding_blocks [OF ne assms(2)] l u
    by (auto simp add: paddingValid_def list_all_iff simp del: of_nat_unat)
qed

theorem RemovePadding_cases_witness:
  "RemovePadding [0x32, 0x43, 0xf6, 0xa8, 0x88, 0x5a, 0x30, 0x8d, 0x31, 0x31, 0x98, 0xa2, 0xe0, 0x37, 0x07, 0x01] =
     Inr [0x32, 0x43, 0xf6, 0xa8, 0x88, 0x5a, 0x30, 0x8d, 0x31, 0x31, 0x98, 0xa2, 0xe0, 0x37, 0x07] \<and>
   RemovePadding [0x32, 0x43, 0xf6, 0xa8, 0x88, 0x5a, 0x30, 0x8d, 0x31, 0x31, 0x98, 0xa2, 0xe0, 0x37, 0x07, 0x00] =
     Inl (Err InvalidPadding)"
  using RemovePadding_cases [of "[0x32, 0x43, 0xf6, 0xa8, 0x88, 0x5a, 0x30, 0x8d, 0x31, 0x31, 0x98, 0xa2, 0xe0, 0x37, 0x07, 0x01]"]
    RemovePadding_cases [of "[0x32, 0x43, 0xf6, 0xa8, 0x88, 0x5a, 0x30, 0x8d, 0x31, 0x31, 0x98, 0xa2, 0xe0, 0x37, 0x07, 0x00]"]
  by (simp add: split_chunks chunks_short)

text \<open>
  C7.  For every block of at most 16 bytes, removing the padding that \<open>padding\<close> adds gives
  the block back.  A block of 16 bytes is padded to 32 bytes, the block followed by sixteen
  bytes \<open>0x10\<close>; a shorter block is padded to 16 bytes, the block followed by
  \<open>n = 16 - len(block)\<close> bytes of value \<open>n\<close>.
\<close>

theorem padding_round_trip:
  assumes "length block \<le> 16"
  shows "RemovePadding (padding block) = Inr block \<and>
     (length block = 16 \<longrightarrow>
        length (padding block) = 32 \<and> padding block = block @ replicate 16 0x10) \<and>
     (length block < 16 \<longrightarrow>
        length (padding block) = 16 \<and>
        padding block = block @ replicate (16 - length block) (of_nat (16 - length block)))"
proof -
  have p: "padding block = block @ padBytes block"
    using assms by (rule padding_padBytes)
  have r: "RemovePadding (padding block) = Inr block"
    unfolding p by (rule RemovePadding_padBytes)
  have f: "length block = 16 \<longrightarrow>
        length (padding block) = 32 \<and> padding block = block @ replicate 16 0x10"
    by (simp add: padding_full)
  have s: "length block < 16 \<longrightarrow>
        length (padding block) = 16 \<and>
        padding block = block @ replicate (16 - length block) (of_nat (16 - length block))"
    by (simp add: padding_short)
  show ?thesis using r f s by blast
qed

theorem padding_round_trip_witness:
  "RemovePadding (padding [0x32, 0x43, 0xf6, 0xa8]) = Inr [0x32, 0x43, 0xf6, 0xa8] \<and>
   length (padding [0x32, 0x43, 0xf6, 0xa8]) = 16"
proof -
  have h: "length [0x32, 0x43, 0xf6, 0xa8 :: byte] \<le> 16" by simp
  have h': "length [0x32, 0x43, 0xf6, 0xa8 :: byte] < 16" by simp
  show ?thesis using padding_round_trip [OF h] h' by blast
qed

section \<open>Counter increment in CTR mode\<close>

text \<open>
  C8.  \<open>addOneToByteSlice\<close> adds one to the counter read as a big-endian number: a byte
  below \<open>0xFF\<close> followed only by \<open>0xFF\<close> bytes is incremented and the bytes after it become
  0 (the carry runs from the last byte leftwards); a counter made only of \<open>0xFF\<close> bytes
  becomes a byte 1 followed by as many zero bytes, one byte longer.  In the loop of
  \<open>encryptCTR\<close> the counter handed to the next block is \<open>addOneToByteSlice\<close> of the
  current one.
\<close>

theorem counter_increment:
  "beValue (addOneToByteSlice b) = beValue b + 1 \<and>
   (x \<noteq> 0xFF \<longrightarrow>
      addOneToByteSlice (xs @ [x] @ replicate m 0xFF) = xs @ [x + 1] @ replicate m 0) \<and>
   addOneToByteSlice (replicate n 0xFF) = 1 # replicate n 0 \<and>
   (toArray16 counter = Inr arr \<and> EncryptBlock a arr = Inr (st, a') \<longrightarrow>
      encryptCTR_loop a (block # blocks) counter r =
        encryptCTR_loop a' blocks (addOneToByteSlice counter)
          (r @ xorBytes block (toSlice (convertMatrixToArray st))))"
proof -
  have v: "beValue (addOneToByteSlice b) = beValue b + 1"
    by (simp add: beValue_leValue addOneToByteSlice_incrLE leValue_incrLE)
  have c: "x \<noteq> 0xFF \<longrightarrow>
      addOneToByteSlice (xs @ [x] @ replicate m 0xFF) = xs @ [x + 1] @ replicate m 0"
    by (simp add: addOneToByteSlice_incrLE incrLE_carry)
  have o: "addOneToByteSlice (replicate n 0xFF) = 1 # replicate n 0"
    by (simp add: addOneToByteSlice_incrLE incrLE_replicate)
  have l: "toArray16 counter = Inr arr \<and> EncryptBlock a arr = Inr (st, a') \<longrightarrow>
      encryptCTR_loop a (block # blocks) counter r =
        encryptCTR_loop a' blocks (addOneToByteSlice counter)
          (r @ xorBytes block (toSlice (convertMatrixToArray st)))"
    by (simp add: Let_def)
  show ?thesis using v c o l by blast
qed

theorem counter_increment_witness:
  "beValue (addOneToByteSlice [0xFF, 0xFF]) = beValue [0xFF, 0xFF] + 1 \<and>
   addOneToByteSlice ([0x12] @ [0x34] @ replicate 2 0xFF) = [0x12] @ [0x34 + 1] @ replicate 2 0 \<and>
   addOneToByteSlice (replicate 16 0xFF) = 1 # replicate 16 0 \<and>
   encryptCTR_loop \<lparr>key = NewKey zero16, rounds = 10, currentRound = 0, roundKeys = replicate 11 zero16\<rparr>
       [[0x00]] (toSlice zero16) [] =
     encryptCTR_loop \<lparr>key = NewKey zero16, rounds = 10, currentRound = 11, roundKeys = roundKeysOf (NewKey zero16)\<rparr>
       [] (addOneToByteSlice (toSlice zero16))
       ([] @ xorBytes [0x00] (toSlice (convertMatrixToArray (convertArrayToMatrix (cipher (NewKey zero16) zero16)))))"
proof -
  let ?a = "\<lparr>key = NewKey zero16, rounds = 10, currentRound = 0, roundKeys = replicate 11 zero16\<rparr>"
  let ?a' = "\<lparr>key = NewKey zero16, rounds = 10, currentRound = 11, roundKeys = roundKeysOf (NewKey zero16)\<rparr>"
  have h1: "(0x34::byte) \<noteq> 0xFF" by simp
  have h2: "toArray16 (toSlice zero16) = Inr zero16" by simp
  have h3: "EncryptBlock ?a zero16 = Inr (convertArrayToMatrix (cipher (NewKey zero16) zero16), ?a')"
    by (simp add: EncryptBlock_ok AES_ok_def)
  show ?thesis
    using counter_increment [of "[0xFF, 0xFF]" "0x34" "[0x12]" 2 16 "toSlice zero16" zero16 ?a
        "convertArrayToMatrix (cipher (NewKey zero16) zero16)" ?a' "[0x00]" "[]" "[]"] h1 h2 h3
    by blast
qed

section \<open>Inputs that make the modes panic\<close>

text \<open>
  C9.  On a cipher object as \<open>New\<close> makes it (10 rounds, 11 round keys), \<open>Decrypt\<close> in CBC
  mode of a ciphertext of at least 32 bytes whose length is not a multiple of 16, and
  \<open>Decrypt\<close> in ECB mode of a ciphertext whose length is not a multiple of 16, do not return
  an error: they panic where the short final block is converted to a 16-byte array.
\<close>

theorem Decrypt_short_final_block_panics:
  assumes "rounds a = 10" and "length (roundKeys a) = 11"
  shows "(32 \<le> length encrypted \<and> length encrypted mod 16 \<noteq> 0 \<longrightarrow>
            Decrypt a CBC encrypted = Inl (Panic SliceToArrayTooShort)) \<and>
         (length encrypted mod 16 \<noteq> 0 \<longrightarrow>
            Decrypt a ECB encrypted = Inl (Panic SliceToArrayTooShort))"
proof -
  have ok: "AES_ok a" using assms by (simp add: AES_ok_def)
  have cbc: "Decrypt a CBC encrypted = Inl (Panic SliceToArrayTooShort)"
    if l: "32 \<le> length encrypted" and m: "length encrypted mod 16 \<noteq> 0"
  proof -
    have "(length encrypted - 16) mod 16 \<noteq> 0" using l m by presburger
    then have "length (drop 16 encrypted) mod 16 \<noteq> 0" by simp
    then obtain full short where
      c: "chunks (drop 16 encrypted) = full @ [short]" "list_all (\<lambda>b. length b = 16) full" "length short < 16"
      using chunks_ragged by blast
    have "decryptCBC_loop a (full @ short # []) (take 16 encrypted) [] = Inl (Panic SliceToArrayTooShort)"
      using ok c(2,3) by (rule decryptCBC_loop_panic)
    then show ?thesis
      using l c(1) by (simp add: Decrypt_def CBC_def ECB_def decryptCBC_def split_chunks)
  qed
  have ecb: "Decrypt a ECB encrypted = Inl (Panic SliceToArrayTooShort)"
    if m: "length encrypted mod 16 \<noteq> 0"
  proof -
    obtain full short where
      c: "chunks encrypted = full @ [short]" "list_all (\<lambda>b. length b = 16) full" "length short < 16"
      using chunks_ragged [OF m] by blast
    have "decryptECB_loop a (full @ short # []) [] = Inl (Panic SliceToArrayTooShort)"
      using ok c(2,3) by (rule decryptECB_loop_panic)
    then show ?thesis
      using c(1) by (simp add: Decrypt_def ECB_def decryptECB_def split_chunks)
  qed
  show ?thesis using cbc ecb by blast
qed

theorem Decrypt_short_final_block_panics_witness:
  "Decrypt \<lparr>key = NewKey zero16, rounds = 10, currentRound = 0, roundKeys = replicate 11 zero16\<rparr> CBC
      (replicate 33 0) = Inl (Panic SliceToArrayTooShort) \<and>
   Decrypt \<lparr>key = NewKey zero16, rounds = 10, currentRound = 0, roundKeys = replicate 11 zero16\<rparr> ECB
      (replicate 17 0) = Inl (Panic SliceToArrayTooShort)"
  using Decrypt_short_final_block_panics
      [of "\<lparr>key = NewKey zero16, rounds = 10, currentRound = 0, roundKeys = replicate 11 zero16\<rparr>" "replicate 33 0"]
    Decrypt_short_final_block_panics
      [of "\<lparr>key = NewKey zero16, rounds = 10, currentRound = 0, roundKeys = replicate 11 zero16\<rparr>" "replicate 17 0"]
  by simp

text \<open>
  C10.  For the empty plaintext, \<open>Encrypt\<close> in ECB mode and in CBC mode panics with an index
  out of range, raised in \<open>createBlocks\<close> where the last element of the empty block list is
  taken; no padding block is encrypted.  This holds for every cipher object and every drawn
  IV.
\<close>

theorem Encrypt_empty_plaintext_panics:
  "createBlocks [] = Inl (Panic IndexOutOfRange) \<and>
   Encrypt a ECB [] rnd = Inl (Panic IndexOutOfRange) \<and>
   Encrypt a CBC [] rnd = Inl (Panic IndexOutOfRange)"
  by (simp add: Encrypt_def ECB_def CBC_def encryptECB_def encryptCBC_def createBlocks_def
      split_chunks index_def)

section \<open>The cipher object across block calls\<close>

lemma keySchedule_zero_1:
  "keySchedule zero16 1 =
     B16 0x62 0x63 0x63 0x63 0x62 0x63 0x63 0x63 0x62 0x63 0x63 0x63 0x62 0x63 0x63 0x63"
  by code_simp

text \<open>
  C5, as the spec states it, fails: the object made by \<open>New\<close> for the all-zero key has round
  counter 0 and eleven zero round keys; after one \<open>EncryptBlock\<close> its round counter is 11 and
  its round keys are no longer the ones it had, after one \<open>DecryptBlock\<close> its round counter
  is \<open>-1\<close>.
\<close>

theorem block_calls_change_state:
  "currentRound (projr (New (NewKey zero16))) = 0 \<and>
   currentRound (snd (projr (EncryptBlock (projr (New (NewKey zero16))) zero16))) = 11 \<and>
   currentRound (snd (projr (DecryptBlock (projr (New (NewKey zero16))) zero16))) = - 1 \<and>
   roundKeys (snd (projr (EncryptBlock (projr (New (NewKey zero16))) zero16))) \<noteq>
     roundKeys (projr (New (NewKey zero16)))"
proof -
  let ?a = "\<lparr>key = NewKey zero16, rounds = 10, currentRound = 0, roundKeys = replicate 11 zero16\<rparr>"
  have n: "projr (New (NewKey zero16)) = ?a" by (simp add: New_eq)
  have ok: "AES_ok ?a" by (simp add: AES_ok_def)
  have "roundKeysOf (NewKey zero16) ! 1 \<noteq> replicate 11 zero16 ! 1"
    using keySchedule_zero_1
    by (simp add: roundKeysOf_def NewKey_def zero16_def del: keySchedule.simps)
  then have d: "roundKeysOf (NewKey zero16) \<noteq> replicate 11 zero16" by metis
  show ?thesis
    unfolding n using d by (simp add: EncryptBlock_ok [OF ok] DecryptBlock_ok [OF ok])
qed

text \<open>
  C5, amended.  \<open>New\<close> derives no schedule: it stores eleven zero round keys.  On a cipher
  object with 10 rounds and 11 round-key slots, whatever they hold, \<open>generateAllKeys\<close>
  stores the schedule of the key, and every \<open>EncryptBlock\<close> and \<open>DecryptBlock\<close> call runs
  it: the call leaves the key and the number of rounds as they were, the round keys equal
  to the schedule of the key, and the round counter at 11 after \<open>EncryptBlock\<close> and at \<open>-1\<close>
  after \<open>DecryptBlock\<close>.
\<close>

theorem block_calls_recompute_schedule:
  assumes "rounds a = 10" and "length (roundKeys a) = 11"
  shows "New k = Inr \<lparr>key = k, rounds = 10, currentRound = 0, roundKeys = replicate 11 zero16\<rparr> \<and>
     generateAllKeys a = Inr (a\<lparr>currentRound := 11, roundKeys := map (keySchedule (material (key a))) [0..<11]\<rparr>) \<and>
     (\<exists>st. EncryptBlock a b =
        Inr (st, a\<lparr>currentRound := 11, roundKeys := map (keySchedule (material (key a))) [0..<11]\<rparr>)) \<and>
     (\<exists>st. DecryptBlock a b =
        Inr (st, a\<lparr>currentRound := - 1, roundKeys := map (keySchedule (material (key a))) [0..<11]\<rparr>))"
proof -
  have ok: "AES_ok a" using assms by (simp add: AES_ok_def)
  show ?thesis
    using generateAllKeys_ok [OF ok] EncryptBlock_ok [OF ok, of b] DecryptBlock_ok [OF ok, of b]
    by (simp add: New_eq roundKeysOf_def)
qed

theorem block_calls_recompute_schedule_witness:
  "generateAllKeys \<lparr>key = NewKey zero16, rounds = 10, currentRound = 7, roundKeys = replicate 11 zero16\<rparr> =
     Inr \<lparr>key = NewKey zero16, rounds = 10, currentRound = 11,
          roundKeys = map (keySchedule (material (NewKey zero16))) [0..<11]\<rparr>"
  using block_calls_recompute_schedule
    [of "\<lparr>key = NewKey zero16, rounds = 10, currentRound = 7, roundKeys = replicate 11 zero16\<rparr>"]
  by simp

end
